theory Spec2Isabelle
  imports Main "HOL-Library.Word"
begin

section \<open>The password generators of main.cpp\<close>

text \<open>
  The program builds passwords from character classes. A leaf generator draws a string of
  \<open>len\<close> characters from the characters of its class; a composite generator holds
  pointers to other generators, lets each of them generate a string, and builds its
  password from characters of those strings.

  \<^item> \<open>size_t\<close> is the unsigned 64-bit integer: subtraction wraps around, and an
    \<open>int\<close> argument is converted modulo \<open>2 ^ 64\<close>. \<open>int\<close> has 32 bits.
  \<^item> A \<open>std::string\<close> is a list of characters and a \<open>std::vector\<close> is a list. A
    string cannot grow beyond \<open>max_size\<close> characters: \<open>std::string::max_size()\<close> is a
    constant of the standard library, not of this program, so every function that builds
    a string takes it as its first argument.
  \<^item> An exception is a value \<open>Inl\<close> of the result, with the message of the source.
    \<open>Length_or_alloc_error\<close> is the exception of a string that cannot grow.
    \<open>Undefined\<close> stands for an execution to which C++ gives no meaning (a distribution
    whose upper bound lies below the lower one, a null pointer that is dereferenced).
  \<^item> The random engine \<open>gen\<close> is the sequence of the numbers that it will deliver; a
    theorem about every \<open>gen\<close> holds for every behaviour of \<open>std::random_device\<close>
    and \<open>std::mt19937\<close>. \<open>random_string\<close> seeds an engine of its own at every call;
    here one sequence runs through all calls, which allows every outcome that engines of
    their own allow.
  \<^item> Generators that are held through a \<open>std::shared_ptr\<close> live in a store, from
    addresses to objects. A virtual call through a pointer may call further ones, without
    a bound that the source would give, so \<open>length\<close> and \<open>generate\<close> take the number
    of nested calls that they may make; \<open>None\<close> says that this number did not suffice.
\<close>

type_synonym size_t = "64 word"

type_synonym rng = "nat \<Rightarrow> nat"

datatype error = Out_of_range string | Runtime_error string | Length_or_alloc_error | Undefined

subsection \<open>password_default_length\<close>

text \<open>The static member \<open>len\<close> is the state; it starts at 10.\<close>

definition initial_len :: size_t where
  "initial_len = 10"

text \<open>The conversion of an \<open>int\<close> argument to the parameter type \<open>size_t\<close>.\<close>

definition size_t_of_int :: "int \<Rightarrow> size_t" where
  "size_t_of_int i = word_of_int i"

text \<open>\<open>set_length\<close> returns the outcome and the new value of \<open>len\<close>.\<close>

definition set_length :: "size_t \<Rightarrow> size_t \<Rightarrow> (error + unit) \<times> size_t" where
  "set_length new_l len =
     (if new_l \<le> 0
      then (Inl (Out_of_range ''Password default length: invalid length value''), len)
      else (Inr (), new_l))"

text \<open>\<open>password_default_length::length\<close>.\<close>

definition length_default :: "size_t \<Rightarrow> size_t" where
  "length_default len = len"

subsection \<open>Strings that grow\<close>

text \<open>
  \<open>push_back\<close> and \<open>append\<close> of \<open>std::string\<close>. A string that would become longer than
  \<open>max_size\<close> is not built: the call throws \<open>std::length_error\<close>. Where the memory of
  the machine ends before that size, the call throws \<open>std::bad_alloc\<close> at that point;
  \<open>max_size\<close> is then that smaller size. Either way nothing is returned.
\<close>

definition push_back :: "size_t \<Rightarrow> string \<Rightarrow> char \<Rightarrow> error + string" where
  "push_back max_size str c =
     (if length str < unat max_size then Inr (str @ [c]) else Inl Length_or_alloc_error)"

definition append_str :: "size_t \<Rightarrow> string \<Rightarrow> string \<Rightarrow> error + string" where
  "append_str max_size str s =
     (if length str + length s \<le> unat max_size then Inr (str @ s)
      else Inl Length_or_alloc_error)"

subsection \<open>random_string\<close>

text \<open>
  The upper bound of \<open>std::uniform_int_distribution<> distribution(0, chars.length() - 1)\<close>.
  The difference is computed in \<open>size_t\<close>; the parameter of the distribution is an
  \<open>int\<close>, which keeps the low 32 bits of it, read in two's complement.
\<close>

definition distribution_b :: "string \<Rightarrow> int" where
  "distribution_b chars =
     (let b = unat (of_nat (length chars) - 1 :: size_t) mod 2 ^ 32
      in if b < 2 ^ 31 then int b else int b - 2 ^ 32)"

text \<open>
  \<open>chars[distribution(gen)]\<close>. The distribution delivers a number from 0 to its upper
  bound, and every such number can be the one delivered. A distribution whose upper
  bound is negative has no defined result: that is the case for the empty string and for
  a string of \<open>2 ^ 31 + 1\<close> characters; up to \<open>2 ^ 31\<close> characters the bound is the last
  position of a non-empty string.
\<close>

definition draw :: "string \<Rightarrow> rng \<Rightarrow> (error + char) \<times> rng" where
  "draw chars gen =
     (if distribution_b chars < 0 then (Inl Undefined, gen)
      else (Inr (chars ! (gen 0 mod (nat (distribution_b chars) + 1))), \<lambda>i. gen (Suc i)))"

text \<open>
  The \<open>for\<close> loop: \<open>idx\<close> counts up to \<open>len - 1\<close>, computed in \<open>size_t\<close>, and every
  round draws a character and pushes it onto \<open>rand_str\<close>.
\<close>

function random_string_loop ::
  "size_t \<Rightarrow> size_t \<Rightarrow> size_t \<Rightarrow> string \<Rightarrow> string \<Rightarrow> rng \<Rightarrow> (error + string) \<times> rng" where
  "random_string_loop max_size idx len chars rand_str gen =
     (if idx < len - 1
      then (case draw chars gen of
              (Inl e, gen') \<Rightarrow> (Inl e, gen')
            | (Inr c, gen') \<Rightarrow>
                (case push_back max_size rand_str c of
                   Inl e \<Rightarrow> (Inl e, gen')
                 | Inr rand_str' \<Rightarrow>
                     random_string_loop max_size (idx + 1) len chars rand_str' gen'))
      else (Inr rand_str, gen))"
  by pat_completeness auto

termination random_string_loop
proof (relation
    "measure (\<lambda>(max_size, idx, len, chars, rand_str, gen). unat (len - 1) - unat idx)")
  show "wf (measure
      (\<lambda>(max_size, idx, len, chars, rand_str, gen). unat (len - 1) - unat idx))"
    by simp
next
  fix max_size idx len :: size_t and chars rand_str rand_str' :: string and gen gen' :: rng
  assume "idx < len - 1"
  then have less: "unat idx < unat (len - 1)" by (simp add: word_less_nat_alt)
  moreover have "unat (len - 1) < 2 ^ 64" using unsigned_less [of "len - 1"] by simp
  ultimately have "unat idx + 1 < 2 ^ 64" by simp
  then have "unat (idx + 1) = Suc (unat idx)" by (simp add: unat_word_ariths)
  with less
  show "((max_size, idx + 1, len, chars, rand_str', gen'),
         (max_size, idx, len, chars, rand_str, gen))
          \<in> measure (\<lambda>(max_size, idx, len, chars, rand_str, gen). unat (len - 1) - unat idx)"
    by simp
qed

declare random_string_loop.simps [simp del]

text \<open>
  \<open>random_string\<close>: the string \<open>rand_str\<close> starts with one drawn character, then the
  loop runs.
\<close>

definition random_string ::
  "size_t \<Rightarrow> size_t \<Rightarrow> string \<Rightarrow> rng \<Rightarrow> (error + string) \<times> rng" where
  "random_string max_size len chars gen =
     (case draw chars gen of
        (Inl e, gen') \<Rightarrow> (Inl e, gen')
      | (Inr c, gen') \<Rightarrow>
          (case push_back max_size [] c of
             Inl e \<Rightarrow> (Inl e, gen')
           | Inr rand_str \<Rightarrow> random_string_loop max_size 0 len chars rand_str gen'))"

subsection \<open>The generator classes\<close>

text \<open>
  \<open>basic_password_generator\<close> holds the field \<open>len\<close>; the class of the object decides
  \<open>allowed_chars\<close>. \<open>Basic\<close> is an object of \<open>basic_password_generator\<close> itself, which
  overrides no \<open>allowed_chars\<close>. A composite holds the vector \<open>generators\<close> of pointers.
\<close>

datatype basic_class = Basic | Digit | Symbol | Upper_letter | Lower_letter

type_synonym addr = nat

datatype password_generator =
    Password_generator
  | Basic_password_generator basic_class size_t
  | Composite_password_generator "addr list"

type_synonym store = "addr \<rightharpoonup> password_generator"

text \<open>
  The constructors. The first argument is the length that the caller gives, if any; the
  second is the value of \<open>password_default_length::len\<close> at the time of the call, which
  the default arguments of \<open>digit_generator\<close> and \<open>upper_letter_generator\<close> read.
\<close>

definition digit_generator :: "size_t option \<Rightarrow> size_t \<Rightarrow> password_generator" where
  "digit_generator l len =
     Basic_password_generator Digit (case l of None \<Rightarrow> length_default len | Some l' \<Rightarrow> l')"

definition symbol_generator :: "size_t option \<Rightarrow> size_t \<Rightarrow> password_generator" where
  "symbol_generator l len =
     Basic_password_generator Symbol (case l of None \<Rightarrow> 12 | Some l' \<Rightarrow> l')"

definition upper_letter_generator :: "size_t option \<Rightarrow> size_t \<Rightarrow> password_generator" where
  "upper_letter_generator l len =
     Basic_password_generator Upper_letter
       (case l of None \<Rightarrow> length_default len | Some l' \<Rightarrow> l')"

definition lower_letter_generator :: "size_t option \<Rightarrow> size_t \<Rightarrow> password_generator" where
  "lower_letter_generator l len =
     Basic_password_generator Lower_letter (case l of None \<Rightarrow> 12 | Some l' \<Rightarrow> l')"

fun allowed_chars :: "password_generator \<Rightarrow> error + string" where
  "allowed_chars (Basic_password_generator Digit len) = Inr ''0123456789''"
| "allowed_chars (Basic_password_generator Symbol len) = Inr ''-/.;#@%)*''"
| "allowed_chars (Basic_password_generator Upper_letter len) = Inr ''ABCDEFGHKLMNIOPRST''"
| "allowed_chars (Basic_password_generator Lower_letter len) = Inr ''abcdefghklmnioprst''"
| "allowed_chars obj = Inl (Runtime_error ''password_generator: can't get allowed_chars.'')"

text \<open>\<open>add\<close> returns the object with the pointer pushed onto \<open>generators\<close>.\<close>

fun add :: "password_generator \<Rightarrow> addr \<Rightarrow> error + password_generator" where
  "add (Composite_password_generator generators) ptr =
     Inr (Composite_password_generator (generators @ [ptr]))"
| "add obj ptr = Inl (Runtime_error ''password_generator: can't add.'')"

subsection \<open>length\<close>

text \<open>
  \<open>std::for_each\<close> with the lambda \<open>find_max\<close> of \<open>composite_password_generator::length\<close>.
  The lambda calls \<open>p->length()\<close> for the comparison and again for the assignment;
  \<open>length_of\<close> is that call.
\<close>

primrec find_max ::
  "(addr \<Rightarrow> (error + size_t) option) \<Rightarrow> addr list \<Rightarrow> size_t \<Rightarrow> (error + size_t) option" where
  "find_max length_of [] len = Some (Inr len)"
| "find_max length_of (p # ps) len =
     (case length_of p of
        None \<Rightarrow> None
      | Some (Inl e) \<Rightarrow> Some (Inl e)
      | Some (Inr l) \<Rightarrow>
          if l > len
          then (case length_of p of
                  None \<Rightarrow> None
                | Some (Inl e) \<Rightarrow> Some (Inl e)
                | Some (Inr l') \<Rightarrow> find_max length_of ps l')
          else find_max length_of ps len)"

text \<open>
  The virtual function \<open>length\<close>, called on the object \<open>obj\<close>. The first argument bounds
  the nesting of the calls; \<open>None\<close> says that it was reached.
\<close>

primrec length_f :: "nat \<Rightarrow> store \<Rightarrow> password_generator \<Rightarrow> (error + size_t) option" where
  "length_f 0 h obj = None"
| "length_f (Suc n) h obj =
     (case obj of
        Password_generator \<Rightarrow>
          Some (Inl (Runtime_error ''password_generator: can't return length.''))
      | Basic_password_generator c len \<Rightarrow> Some (Inr len)
      | Composite_password_generator generators \<Rightarrow>
          find_max
            (\<lambda>p. case h p of None \<Rightarrow> Some (Inl Undefined) | Some obj' \<Rightarrow> length_f n h obj')
            generators 0)"

subsection \<open>generate\<close>

text \<open>The first loop of \<open>composite_password_generator::generate\<close>.\<close>

primrec generate_all ::
  "(addr \<Rightarrow> rng \<Rightarrow> ((error + string) \<times> rng) option) \<Rightarrow> addr list \<Rightarrow> string list \<Rightarrow> rng
     \<Rightarrow> ((error + string list) \<times> rng) option" where
  "generate_all generate_of [] generated_strings gen = Some (Inr generated_strings, gen)"
| "generate_all generate_of (p # ps) generated_strings gen =
     (case generate_of p gen of
        None \<Rightarrow> None
      | Some (Inl e, gen') \<Rightarrow> Some (Inl e, gen')
      | Some (Inr s, gen') \<Rightarrow> generate_all generate_of ps (generated_strings @ [s]) gen')"

text \<open>The second loop: every string is appended to \<open>concatenated_string\<close>.\<close>

primrec append_all :: "size_t \<Rightarrow> string list \<Rightarrow> string \<Rightarrow> error + string" where
  "append_all max_size [] concatenated_string = Inr concatenated_string"
| "append_all max_size (str # strs) concatenated_string =
     (case append_str max_size concatenated_string str of
        Inl e \<Rightarrow> Inl e
      | Inr concatenated_string' \<Rightarrow> append_all max_size strs concatenated_string')"

text \<open>
  The third loop: for every string, \<open>random_string(1, str)\<close> is appended to \<open>password\<close>.
\<close>

primrec append_random ::
  "size_t \<Rightarrow> string list \<Rightarrow> string \<Rightarrow> rng \<Rightarrow> (error + string) \<times> rng" where
  "append_random max_size [] password gen = (Inr password, gen)"
| "append_random max_size (str # strs) password gen =
     (case random_string max_size 1 str gen of
        (Inl e, gen') \<Rightarrow> (Inl e, gen')
      | (Inr s, gen') \<Rightarrow>
          (case append_str max_size password s of
             Inl e \<Rightarrow> (Inl e, gen')
           | Inr password' \<Rightarrow> append_random max_size strs password' gen'))"

text \<open>
  \<open>composite_password_generator::generate\<close> after \<open>pas_len = length()\<close> and the first
  loop; \<open>generated_strings.size()\<close> is a \<open>size_t\<close>.
\<close>

definition compose :: "size_t \<Rightarrow> size_t \<Rightarrow> string list \<Rightarrow> rng \<Rightarrow> (error + string) \<times> rng" where
  "compose max_size pas_len generated_strings gen =
     (if pas_len \<le> of_nat (length generated_strings)
      then (Inl (Out_of_range ''composite password generator: too short password''), gen)
      else (case append_all max_size generated_strings [] of
              Inl e \<Rightarrow> (Inl e, gen)
            | Inr concatenated_string \<Rightarrow>
                (case random_string max_size (pas_len - of_nat (length generated_strings))
                        concatenated_string gen of
                   (Inl e, gen') \<Rightarrow> (Inl e, gen')
                 | (Inr password, gen') \<Rightarrow>
                     append_random max_size generated_strings password gen')))"

text \<open>
  The virtual function \<open>generate\<close>, called on the object \<open>obj\<close>, with the bound on the
  nesting of the calls as for \<open>length_f\<close>. \<open>basic_password_generator::generate\<close>
  evaluates \<open>allowed_chars()\<close> before it calls \<open>random_string\<close>; \<open>allowed_chars()\<close>
  builds a \<open>std::string\<close> from its literal, which must fit.
\<close>

primrec generate_f ::
  "size_t \<Rightarrow> nat \<Rightarrow> store \<Rightarrow> password_generator \<Rightarrow> rng
     \<Rightarrow> ((error + string) \<times> rng) option" where
  "generate_f max_size 0 h obj gen = None"
| "generate_f max_size (Suc n) h obj gen =
     (case obj of
        Password_generator \<Rightarrow>
          Some (Inl (Runtime_error ''password_generator: can't generate.''), gen)
      | Basic_password_generator c len \<Rightarrow>
          (case allowed_chars obj of
             Inl e \<Rightarrow> Some (Inl e, gen)
           | Inr chars \<Rightarrow>
               if length chars \<le> unat max_size
               then Some (random_string max_size len chars gen)
               else Some (Inl Length_or_alloc_error, gen))
      | Composite_password_generator generators \<Rightarrow>
          (case length_f n h obj of
             None \<Rightarrow> None
           | Some (Inl e) \<Rightarrow> Some (Inl e, gen)
           | Some (Inr pas_len) \<Rightarrow>
               (case generate_all
                       (\<lambda>p g. case h p of
                                None \<Rightarrow> Some (Inl Undefined, g)
                              | Some obj' \<Rightarrow> generate_f max_size n h obj' g)
                       generators [] gen of
                  None \<Rightarrow> None
                | Some (Inl e, gen') \<Rightarrow> Some (Inl e, gen')
                | Some (Inr generated_strings, gen') \<Rightarrow>
                    Some (compose max_size pas_len generated_strings gen'))))"

subsection \<open>Notions for the statements\<close>

text \<open>A random engine that delivers 0, 1, 2 and so on, for the examples.\<close>

definition counting :: rng where
  "counting = (\<lambda>i. i)"

text \<open>The calls \<open>p->length()\<close> and \<open>p->generate()\<close> through a pointer of the store.\<close>

definition length_of :: "nat \<Rightarrow> store \<Rightarrow> addr \<Rightarrow> (error + size_t) option" where
  "length_of n h p = (case h p of None \<Rightarrow> Some (Inl Undefined) | Some obj' \<Rightarrow> length_f n h obj')"

definition generate_of ::
  "size_t \<Rightarrow> nat \<Rightarrow> store \<Rightarrow> addr \<Rightarrow> rng \<Rightarrow> ((error + string) \<times> rng) option" where
  "generate_of max_size n h p g =
     (case h p of
        None \<Rightarrow> Some (Inl Undefined, g)
      | Some obj' \<Rightarrow> generate_f max_size n h obj' g)"

text \<open>
  A policy is an object of one of the four classes that have an alphabet. \<open>len_at\<close> and
  \<open>chars_at\<close> read the length and the alphabet of the policy at an address.
\<close>

fun policy :: "password_generator option \<Rightarrow> bool" where
  "policy (Some (Basic_password_generator c len)) = (c \<noteq> Basic)"
| "policy obj = False"

fun len_at :: "password_generator option \<Rightarrow> size_t" where
  "len_at (Some (Basic_password_generator c len)) = len"
| "len_at obj = 0"

fun chars_at :: "password_generator option \<Rightarrow> string" where
  "chars_at (Some obj) = (case allowed_chars obj of Inl e \<Rightarrow> [] | Inr chars \<Rightarrow> chars)"
| "chars_at None = []"

text \<open>The greatest length among the registered policies, 0 when there is none.\<close>

definition max_length :: "store \<Rightarrow> addr list \<Rightarrow> size_t" where
  "max_length h generators = Max (set (0 # map (\<lambda>p. len_at (h p)) generators))"

text \<open>The number of characters that the registered policies are to generate together.\<close>

definition sum_length :: "store \<Rightarrow> addr list \<Rightarrow> nat" where
  "sum_length h generators = sum_list (map (\<lambda>p. unat (len_at (h p))) generators)"

text \<open>
  A configuration is grounded when every registered pointer leads to an object and no
  composite is reached from itself: the objects below it form a finite tree.
\<close>

inductive grounded :: "store \<Rightarrow> password_generator \<Rightarrow> bool" for h :: store where
  base: "grounded h Password_generator"
| leaf: "grounded h (Basic_password_generator c len)"
| composite:
    "(\<forall>p \<in> set generators. \<exists>obj. h p = Some obj \<and> grounded h obj)
     \<Longrightarrow> grounded h (Composite_password_generator generators)"

text \<open>
  At the nesting depth \<open>n\<close>, \<open>length()\<close> and \<open>generate()\<close> of the object yield an
  outcome. That of \<open>length()\<close> is one that C++ defines; so is that of \<open>generate()\<close>
  where strings cannot grow beyond \<open>2 ^ 31\<close> characters; a string that \<open>generate()\<close>
  returns is not empty and not longer than \<open>max_size\<close>.
\<close>

definition settles :: "size_t \<Rightarrow> nat \<Rightarrow> store \<Rightarrow> password_generator \<Rightarrow> bool" where
  "settles max_size n h obj \<longleftrightarrow>
     (\<exists>r. length_f n h obj = Some r \<and> r \<noteq> Inl Undefined)
     \<and> (\<forall>gen. \<exists>r gen'. generate_f max_size n h obj gen = Some (r, gen')
            \<and> (unat max_size \<le> 2 ^ 31 \<longrightarrow> r \<noteq> Inl Undefined)
            \<and> (\<forall>s. r = Inr s \<longrightarrow> s \<noteq> [] \<and> length s \<le> unat max_size))"

text \<open>
  Stores for the examples: four policies of length 16 each, one of every class; a single
  policy of length 1; policies of length 0 beside or without others; an object of the
  base class; and a composite that was created through \<open>std::make_shared\<close> and then
  registered in itself, where \<open>c->add(c)\<close> turns the empty composite at address 0 into
  the one below.
\<close>

definition four_of_16 :: store where
  "four_of_16 =
     [0 \<mapsto> digit_generator (Some 16) initial_len,
      1 \<mapsto> symbol_generator (Some 16) initial_len,
      2 \<mapsto> upper_letter_generator (Some 16) initial_len,
      3 \<mapsto> lower_letter_generator (Some 16) initial_len]"

definition single_of_1 :: store where
  "single_of_1 = [0 \<mapsto> digit_generator (Some 1) initial_len]"

definition single_of_0 :: store where
  "single_of_0 = [0 \<mapsto> digit_generator (Some 0) initial_len]"

definition zero_and_five :: store where
  "zero_and_five =
     [0 \<mapsto> digit_generator (Some 0) initial_len,
      1 \<mapsto> lower_letter_generator (Some 5) initial_len]"

definition zero_and_three :: store where
  "zero_and_three =
     [0 \<mapsto> upper_letter_generator (Some 0) initial_len,
      1 \<mapsto> symbol_generator (Some 3) initial_len]"

definition base_object :: store where
  "base_object = [0 \<mapsto> Password_generator]"

definition self_registered :: store where
  "self_registered = [0 \<mapsto> Composite_password_generator [0]]"

section \<open>Properties\<close>

subsection \<open>Arithmetic of size_t\<close>

lemma unat_succ: "idx < (m::size_t) \<Longrightarrow> unat (idx + 1) = Suc (unat idx)"
proof -
  assume "idx < m"
  then have "unat idx < unat m" by (simp add: word_less_nat_alt)
  moreover have "unat m < 2 ^ 64" using unsigned_less [of m] by simp
  ultimately have "unat idx + 1 < 2 ^ 64" by simp
  then show ?thesis by (simp add: unat_word_ariths)
qed

lemma unat_pred: "(1::size_t) \<le> len \<Longrightarrow> Suc (unat (len - 1)) = unat len"
  by (metis Suc_diff_le diff_Suc_1 unat_sub unsigned_1 word_less_eq_iff_unsigned)

lemma unat_zero_pred: "Suc (unat (0 - 1 :: size_t)) = 18446744073709551616"
  by (simp add: unsigned_minus_1_eq_mask mask_eq_exp_minus_1)

lemma pred_size: "0 < n \<Longrightarrow> unat (of_nat n - 1 :: size_t) = (n - 1) mod 2 ^ 64"
proof -
  assume "0 < n"
  then have "(of_nat n - 1 :: size_t) = of_nat (n - 1)" by (cases n) simp_all
  then show ?thesis by (simp add: unat_of_nat)
qed

subsection \<open>random_string\<close>

lemma distribution_b_small:
  assumes "chars \<noteq> []" and "length chars \<le> 2 ^ 31"
  shows "distribution_b chars = int (length chars) - 1"
proof -
  from assms(1) have pos: "0 < length chars" by simp
  from assms(2) have "length chars - 1 < 2 ^ 64" by simp
  with pred_size [OF pos] have u: "unat (of_nat (length chars) - 1 :: size_t) = length chars - 1"
    by simp
  from pos assms(2) have "length chars - 1 < 2 ^ 31" by simp
  moreover then have "(length chars - 1) mod 2 ^ 32 = length chars - 1" by simp
  moreover from pos have "int (length chars - 1) = int (length chars) - 1" by linarith
  ultimately show ?thesis using u by (simp add: distribution_b_def Let_def)
qed

lemma distribution_b_range:
  assumes "0 \<le> distribution_b chars"
  shows "nat (distribution_b chars) < length chars"
proof (cases "chars = []")
  case True
  have "unat (0 - 1 :: size_t) mod 2 ^ 32 = 4294967295"
    by (simp add: unsigned_minus_1_eq_mask mask_eq_exp_minus_1)
  with True assms show ?thesis by (simp add: distribution_b_def Let_def)
next
  case False
  then have pos: "0 < length chars" by simp
  let ?b = "unat (of_nat (length chars) - 1 :: size_t) mod 2 ^ 32"
  have "?b \<le> unat (of_nat (length chars) - 1 :: size_t)" by simp
  also have "\<dots> \<le> length chars - 1" using pred_size [OF pos] by simp
  finally have "?b \<le> length chars - 1" .
  with pos have le: "?b < length chars" by linarith
  from assms have "distribution_b chars = int ?b"
    by (auto simp: distribution_b_def Let_def split: if_splits)
  with le show ?thesis by simp
qed

lemma distribution_b_empty: "distribution_b [] = - 1"
  by (simp add: distribution_b_def unsigned_minus_1_eq_mask mask_eq_exp_minus_1)

lemma draw_in_chars:
  assumes "0 \<le> distribution_b chars"
  shows "\<exists>c gen'. draw chars gen = (Inr c, gen') \<and> c \<in> set chars"
proof -
  have "gen 0 mod (nat (distribution_b chars) + 1) < nat (distribution_b chars) + 1"
    by (rule mod_less_divisor) simp
  with distribution_b_range [OF assms]
  have "gen 0 mod (nat (distribution_b chars) + 1) < length chars" by linarith
  with assms show ?thesis by (simp add: draw_def)
qed

lemma draw_undefined: "distribution_b chars < 0 \<Longrightarrow> draw chars gen = (Inl Undefined, gen)"
  by (simp add: draw_def)

lemma draw_outcome:
  "(\<exists>c gen'. draw chars gen = (Inr c, gen') \<and> c \<in> set chars \<and> 0 \<le> distribution_b chars)
   \<or> (draw chars gen = (Inl Undefined, gen) \<and> distribution_b chars < 0)"
  using draw_in_chars [of chars gen] draw_undefined [of chars gen]
  by (cases "0 \<le> distribution_b chars") auto

text \<open>Whatever the arguments, the loop ends in one of three ways.\<close>

lemma random_string_loop_outcome:
  "length rand_str \<le> unat max_size \<Longrightarrow>
   (\<exists>xs gen'. random_string_loop max_size idx len chars rand_str gen
        = (Inr (rand_str @ xs), gen')
      \<and> set xs \<subseteq> set chars \<and> length (rand_str @ xs) \<le> unat max_size)
   \<or> (\<exists>gen'. random_string_loop max_size idx len chars rand_str gen
        = (Inl Length_or_alloc_error, gen'))
   \<or> (\<exists>gen'. random_string_loop max_size idx len chars rand_str gen = (Inl Undefined, gen')
        \<and> distribution_b chars < 0)"
proof (induction max_size idx len chars rand_str gen rule: random_string_loop.induct)
  case (1 max_size idx len chars rand_str gen)
  show ?case
  proof (cases "idx < len - 1")
    case False
    then have "random_string_loop max_size idx len chars rand_str gen = (Inr rand_str, gen)"
      by (simp add: random_string_loop.simps [of max_size idx])
    with "1.prems" show ?thesis by simp
  next
    case True
    from draw_outcome [of chars gen] show ?thesis
    proof (elim disjE exE conjE)
      assume "draw chars gen = (Inl Undefined, gen)" and "distribution_b chars < 0"
      with True show ?thesis by (simp add: random_string_loop.simps [of max_size idx])
    next
      fix c gen'
      assume d: "draw chars gen = (Inr c, gen')" and c: "c \<in> set chars"
      show ?thesis
      proof (cases "length rand_str < unat max_size")
        case False
        with True d show ?thesis
          by (simp add: random_string_loop.simps [of max_size idx] push_back_def)
      next
        case room: True
        then have p: "push_back max_size rand_str c = Inr (rand_str @ [c])"
          by (simp add: push_back_def)
        from room have "length (rand_str @ [c]) \<le> unat max_size" by simp
        from "1.IH" [OF True d [symmetric] refl p this]
        have "(\<exists>xs gen''. random_string_loop max_size (idx + 1) len chars (rand_str @ [c]) gen'
                  = (Inr ((rand_str @ [c]) @ xs), gen'')
                \<and> set xs \<subseteq> set chars \<and> length ((rand_str @ [c]) @ xs) \<le> unat max_size)
           \<or> (\<exists>gen''. random_string_loop max_size (idx + 1) len chars (rand_str @ [c]) gen'
                  = (Inl Length_or_alloc_error, gen''))
           \<or> (\<exists>gen''. random_string_loop max_size (idx + 1) len chars (rand_str @ [c]) gen'
                  = (Inl Undefined, gen'') \<and> distribution_b chars < 0)" .
        moreover have "random_string_loop max_size idx len chars rand_str gen
            = random_string_loop max_size (idx + 1) len chars (rand_str @ [c]) gen'"
          using True d p by (simp add: random_string_loop.simps [of max_size idx])
        ultimately show ?thesis
        proof (elim disjE exE conjE)
          fix xs gen''
          assume "random_string_loop max_size (idx + 1) len chars (rand_str @ [c]) gen'
                  = (Inr ((rand_str @ [c]) @ xs), gen'')"
            and "set xs \<subseteq> set chars"
            and "length ((rand_str @ [c]) @ xs) \<le> unat max_size"
            and "random_string_loop max_size idx len chars rand_str gen
              = random_string_loop max_size (idx + 1) len chars (rand_str @ [c]) gen'"
          with c have "random_string_loop max_size idx len chars rand_str gen
              = (Inr (rand_str @ c # xs), gen'')
            \<and> set (c # xs) \<subseteq> set chars \<and> length (rand_str @ c # xs) \<le> unat max_size"
            by simp
          then show ?thesis by blast
        qed auto
      qed
    qed
  qed
qed

lemma random_string_loop_appends:
  "0 \<le> distribution_b chars \<Longrightarrow> idx \<le> len - 1 \<Longrightarrow>
   length rand_str + (unat (len - 1) - unat idx) \<le> unat max_size \<Longrightarrow>
   \<exists>xs gen'. random_string_loop max_size idx len chars rand_str gen = (Inr (rand_str @ xs), gen')
     \<and> length xs = unat (len - 1) - unat idx \<and> set xs \<subseteq> set chars"
proof (induction max_size idx len chars rand_str gen rule: random_string_loop.induct)
  case (1 max_size idx len chars rand_str gen)
  show ?case
  proof (cases "idx < len - 1")
    case True
    from draw_in_chars [OF "1.prems"(1)] obtain c gen'
      where d: "draw chars gen = (Inr c, gen')" and c: "c \<in> set chars" by blast
    from True have less: "unat idx < unat (len - 1)" by (simp add: word_less_nat_alt)
    with "1.prems"(3) have room: "length rand_str < unat max_size" by simp
    then have p: "push_back max_size rand_str c = Inr (rand_str @ [c])"
      by (simp add: push_back_def)
    from True have le: "idx + 1 \<le> len - 1" by (simp add: inc_le)
    from less "1.prems"(3) unat_succ [OF True]
    have fits: "length (rand_str @ [c]) + (unat (len - 1) - unat (idx + 1)) \<le> unat max_size"
      by simp
    from "1.IH" [OF True d [symmetric] refl p "1.prems"(1) le fits]
    obtain xs gen'' where
      r: "random_string_loop max_size (idx + 1) len chars (rand_str @ [c]) gen'
            = (Inr ((rand_str @ [c]) @ xs), gen'')"
      and l: "length xs = unat (len - 1) - unat (idx + 1)" and s: "set xs \<subseteq> set chars"
      by auto
    from l less unat_succ [OF True] have "length (c # xs) = unat (len - 1) - unat idx" by simp
    moreover have "random_string_loop max_size idx len chars rand_str gen
        = (Inr (rand_str @ c # xs), gen'')"
      using True d p r by (simp add: random_string_loop.simps [of max_size idx])
    moreover have "set (c # xs) \<subseteq> set chars" using c s by simp
    ultimately show ?thesis by blast
  next
    case False
    with "1.prems"(2) have eq: "idx = len - 1" by simp
    from False have "random_string_loop max_size idx len chars rand_str gen = (Inr rand_str, gen)"
      by (simp add: random_string_loop.simps [of max_size idx])
    with eq show ?thesis by simp
  qed
qed

lemma random_string_loop_overflows:
  "0 \<le> distribution_b chars \<Longrightarrow> idx \<le> len - 1 \<Longrightarrow> length rand_str \<le> unat max_size \<Longrightarrow>
   unat max_size < length rand_str + (unat (len - 1) - unat idx) \<Longrightarrow>
   \<exists>gen'. random_string_loop max_size idx len chars rand_str gen
     = (Inl Length_or_alloc_error, gen')"
proof (induction max_size idx len chars rand_str gen rule: random_string_loop.induct)
  case (1 max_size idx len chars rand_str gen)
  from "1.prems"(3,4) have "unat idx < unat (len - 1)" by simp
  then have True: "idx < len - 1" by (simp add: word_less_nat_alt)
  from draw_in_chars [OF "1.prems"(1)] obtain c gen'
    where d: "draw chars gen = (Inr c, gen')" by blast
  show ?case
  proof (cases "length rand_str < unat max_size")
    case False
    with True d show ?thesis
      by (simp add: random_string_loop.simps [of max_size idx] push_back_def)
  next
    case room: True
    then have p: "push_back max_size rand_str c = Inr (rand_str @ [c])"
      by (simp add: push_back_def)
    from True have le: "idx + 1 \<le> len - 1" by (simp add: inc_le)
    from room have fits: "length (rand_str @ [c]) \<le> unat max_size" by simp
    from "1.prems"(4) unat_succ [OF True]
    have over: "unat max_size < length (rand_str @ [c]) + (unat (len - 1) - unat (idx + 1))"
      by simp
    from "1.IH" [OF True d [symmetric] refl p "1.prems"(1) le fits over]
    obtain gen'' where "random_string_loop max_size (idx + 1) len chars (rand_str @ [c]) gen'
        = (Inl Length_or_alloc_error, gen'')" by blast
    with True d p show ?thesis by (simp add: random_string_loop.simps [of max_size idx])
  qed
qed

lemma random_string_returns:
  assumes "0 \<le> distribution_b chars" and "Suc (unat (len - 1)) \<le> unat max_size"
  shows "\<exists>s gen'. random_string max_size len chars gen = (Inr s, gen')
     \<and> length s = Suc (unat (len - 1)) \<and> set s \<subseteq> set chars"
proof -
  from draw_in_chars [OF assms(1)] obtain c gen'
    where d: "draw chars gen = (Inr c, gen')" and c: "c \<in> set chars" by blast
  from assms(2) have p: "push_back max_size [] c = Inr [c]" by (simp add: push_back_def)
  from assms(2) have "length [c] + (unat (len - 1) - unat (0::size_t)) \<le> unat max_size" by simp
  from random_string_loop_appends [OF assms(1) _ this, of gen']
  obtain xs gen'' where "random_string_loop max_size 0 len chars [c] gen' = (Inr ([c] @ xs), gen'')"
    and "length xs = unat (len - 1)" and "set xs \<subseteq> set chars" by auto
  with d p c show ?thesis by (simp add: random_string_def)
qed

lemma random_string_overflows:
  assumes "0 \<le> distribution_b chars" and "unat max_size < Suc (unat (len - 1))"
  shows "\<exists>gen'. random_string max_size len chars gen = (Inl Length_or_alloc_error, gen')"
proof -
  from draw_in_chars [OF assms(1)] obtain c gen'
    where d: "draw chars gen = (Inr c, gen')" by blast
  show ?thesis
  proof (cases "0 < unat max_size")
    case False
    with d show ?thesis by (simp add: random_string_def push_back_def)
  next
    case True
    then have p: "push_back max_size [] c = Inr [c]" by (simp add: push_back_def)
    from True have fits: "length [c] \<le> unat max_size" by simp
    from assms(2) have "unat max_size < length [c] + (unat (len - 1) - unat (0::size_t))" by simp
    from random_string_loop_overflows [OF assms(1) _ fits this, of gen']
    obtain gen'' where "random_string_loop max_size 0 len chars [c] gen'
        = (Inl Length_or_alloc_error, gen'')" by auto
    with d p show ?thesis by (simp add: random_string_def)
  qed
qed

lemma random_string_zero:
  assumes "0 \<le> distribution_b chars"
  shows "\<exists>gen'. random_string max_size 0 chars gen = (Inl Length_or_alloc_error, gen')"
proof -
  have "unat max_size < 2 ^ 64" using unsigned_less [of max_size] by simp
  with unat_zero_pred have "unat max_size < Suc (unat (0 - 1 :: size_t))" by simp
  from random_string_overflows [OF assms this] show ?thesis .
qed

lemma random_string_undefined:
  "distribution_b chars < 0 \<Longrightarrow> random_string max_size len chars gen = (Inl Undefined, gen)"
  by (simp add: random_string_def draw_undefined)

lemma random_string_outcome:
  "(\<exists>s gen'. random_string max_size len chars gen = (Inr s, gen')
      \<and> s \<noteq> [] \<and> set s \<subseteq> set chars \<and> length s \<le> unat max_size)
   \<or> (\<exists>gen'. random_string max_size len chars gen = (Inl Length_or_alloc_error, gen'))
   \<or> (random_string max_size len chars gen = (Inl Undefined, gen) \<and> distribution_b chars < 0)"
proof (cases "0 \<le> distribution_b chars")
  case False
  then show ?thesis by (simp add: random_string_undefined)
next
  case True
  from draw_in_chars [OF True] obtain c gen'
    where d: "draw chars gen = (Inr c, gen')" and c: "c \<in> set chars" by blast
  show ?thesis
  proof (cases "0 < unat max_size")
    case False
    with d show ?thesis by (simp add: random_string_def push_back_def)
  next
    case room: True
    then have p: "push_back max_size [] c = Inr [c]" by (simp add: push_back_def)
    from room have "length [c] \<le> unat max_size" by simp
    from random_string_loop_outcome [OF this, of 0 len chars gen'] True d p c
    show ?thesis by (auto simp: random_string_def)
  qed
qed

text \<open>
  C3, as the source has it. For every length from 1 up to \<open>max_size\<close> and every
  non-empty alphabet of at most \<open>2 ^ 31\<close> characters, \<open>random_string\<close> returns a
  string of exactly that many characters, and each of them is a character of the
  alphabet.
\<close>

theorem random_string_length_and_members:
  assumes "1 \<le> len" and "unat len \<le> unat max_size"
    and "chars \<noteq> []" and "length chars \<le> 2 ^ 31"
  shows "\<exists>s gen'. random_string max_size len chars gen = (Inr s, gen')
     \<and> length s = unat len \<and> set s \<subseteq> set chars"
proof -
  from distribution_b_small [OF assms(3,4)] assms(3) have b: "0 \<le> distribution_b chars"
    by (cases chars) simp_all
  from unat_pred [OF assms(1)] assms(2) have "Suc (unat (len - 1)) \<le> unat max_size" by simp
  from random_string_returns [OF b this, of gen] unat_pred [OF assms(1)] show ?thesis by simp
qed

theorem random_string_length_and_members_witness:
  "(1::size_t) \<le> 3 \<and> unat (3::size_t) \<le> unat (1000::size_t)
   \<and> ''abc'' \<noteq> [] \<and> length ''abc'' \<le> 2 ^ 31
   \<and> (\<exists>s gen'. random_string 1000 3 ''abc'' counting = (Inr s, gen')
        \<and> length s = unat (3::size_t) \<and> set s \<subseteq> set ''abc'')"
  using random_string_length_and_members [of 3 1000 "''abc''" counting] by simp

text \<open>
  C3, as the claim has it, fails: for an alphabet of \<open>2 ^ 31 + 1\<close> characters the
  upper bound of the distribution is negative as an \<open>int\<close>, and the call has no defined
  result, whatever \<open>max_size\<close> is.
\<close>

theorem random_string_large_alphabet_counterexample:
  "\<forall>max_size. random_string max_size 3 (replicate 2147483649 CHR ''a'') counting
     = (Inl Undefined, counting)"
proof
  fix max_size
  have "distribution_b (replicate 2147483649 CHR ''a'') < 0"
    by (simp add: distribution_b_def)
  then show "random_string max_size 3 (replicate 2147483649 CHR ''a'') counting
     = (Inl Undefined, counting)"
    by (rule random_string_undefined)
qed

text \<open>
  C5, as the source has it. \<open>random_string\<close> checks neither argument and throws no
  exception of its own: neither a \<open>std::out_of_range\<close> nor a \<open>std::runtime_error\<close> is
  ever its outcome. For an empty alphabet the first draw has no defined result, whatever
  the length.
\<close>

theorem random_string_without_checks:
  "random_string max_size len [] gen = (Inl Undefined, gen)
   \<and> fst (random_string max_size len chars gen) \<noteq> Inl (Out_of_range msg)
   \<and> fst (random_string max_size len chars gen) \<noteq> Inl (Runtime_error msg)"
proof -
  have "random_string max_size len [] gen = (Inl Undefined, gen)"
    by (rule random_string_undefined) (simp add: distribution_b_empty)
  moreover from random_string_outcome [of max_size len chars gen]
  have "fst (random_string max_size len chars gen) \<noteq> Inl (Out_of_range msg)
      \<and> fst (random_string max_size len chars gen) \<noteq> Inl (Runtime_error msg)"
    by auto
  ultimately show ?thesis by simp
qed

text \<open>
  C5, as the claim has it, fails: with the length 3 and the empty alphabet no exception
  is thrown; the call has no defined result.
\<close>

theorem random_string_empty_alphabet_counterexample:
  "\<forall>max_size. random_string max_size 3 [] counting = (Inl Undefined, counting)"
proof
  fix max_size
  show "random_string max_size 3 [] counting = (Inl Undefined, counting)"
    by (rule random_string_undefined) (simp add: distribution_b_empty)
qed

subsection \<open>password_default_length\<close>

text \<open>
  C4, as the source has it. \<open>set_length(0)\<close> throws \<open>std::out_of_range\<close> and leaves
  \<open>len\<close> as it was. The parameter is a \<open>size_t\<close>, so the argument \<open>-1\<close> arrives as
  \<open>2 ^ 64 - 1\<close>: the call succeeds and stores that value. \<open>set_length(16)\<close> succeeds and
  \<open>length()\<close> returns 16 afterwards. \<open>len\<close> starts above 0 and stays above 0.
\<close>

theorem set_length_cases:
  "set_length 0 len
     = (Inl (Out_of_range ''Password default length: invalid length value''), len)
   \<and> set_length (size_t_of_int (- 1)) len = (Inr (), 18446744073709551615)
   \<and> fst (set_length 16 len) = Inr ()
   \<and> length_default (snd (set_length 16 len)) = 16
   \<and> 0 < initial_len
   \<and> (0 < len \<longrightarrow> 0 < snd (set_length new_l len))"
  by (simp add: set_length_def size_t_of_int_def length_default_def initial_len_def
      word_greater_zero_iff)

theorem set_length_cases_witness:
  "0 < initial_len \<and> 0 < snd (set_length 0 initial_len)"
  using set_length_cases [of initial_len 0] by simp

text \<open>
  C4, as the claim has it, fails: \<open>set_length(-1)\<close> throws nothing and changes the
  stored length.
\<close>

theorem set_length_minus_one_counterexample:
  "set_length (size_t_of_int (- 1)) initial_len = (Inr (), 18446744073709551615)"
  by (simp add: set_length_def size_t_of_int_def)

subsection \<open>The lengths of the leaf generators\<close>

text \<open>
  C6. Constructed without a length, a symbol generator and a lower-letter generator have
  length 12, whatever \<open>password_default_length::len\<close> is; a digit generator and an
  upper-letter generator have the value of \<open>password_default_length::length()\<close> at the
  time of the construction.
\<close>

theorem default_lengths_of_leaf_generators:
  "length_f (Suc n) h (symbol_generator None len) = Some (Inr 12)
   \<and> length_f (Suc n) h (lower_letter_generator None len) = Some (Inr 12)
   \<and> length_f (Suc n) h (digit_generator None len) = Some (Inr (length_default len))
   \<and> length_f (Suc n) h (upper_letter_generator None len) = Some (Inr (length_default len))"
  by (simp add: symbol_generator_def lower_letter_generator_def digit_generator_def
      upper_letter_generator_def)

text \<open>
  C10. Before any call of \<open>set_length\<close>, \<open>password_default_length::length()\<close> returns 10,
  and a digit generator or an upper-letter generator constructed without a length has
  length 10.
\<close>

theorem initial_default_length:
  "length_default initial_len = 10
   \<and> length_f (Suc n) h (digit_generator None initial_len) = Some (Inr 10)
   \<and> length_f (Suc n) h (upper_letter_generator None initial_len) = Some (Inr 10)"
  by (simp add: length_default_def initial_len_def digit_generator_def
      upper_letter_generator_def)

subsection \<open>The composite generator\<close>

lemma length_f_composite:
  "length_f (Suc n) h (Composite_password_generator generators)
     = find_max (length_of n h) generators 0"
  by (simp add: length_of_def [abs_def])

lemma generate_f_composite:
  "generate_f max_size (Suc n) h (Composite_password_generator generators) gen =
     (case length_f n h (Composite_password_generator generators) of
        None \<Rightarrow> None
      | Some (Inl e) \<Rightarrow> Some (Inl e, gen)
      | Some (Inr pas_len) \<Rightarrow>
          (case generate_all (generate_of max_size n h) generators [] gen of
             None \<Rightarrow> None
           | Some (Inl e, gen') \<Rightarrow> Some (Inl e, gen')
           | Some (Inr generated_strings, gen') \<Rightarrow>
               Some (compose max_size pas_len generated_strings gen')))"
  by (simp add: generate_of_def [abs_def] split: option.split sum.split prod.split)

lemma policy_cases:
  "policy (h p) \<Longrightarrow> \<exists>c len. h p = Some (Basic_password_generator c len) \<and> c \<noteq> Basic"
  by (cases "h p" rule: policy.cases) auto

lemma policy_alphabet:
  assumes "c \<noteq> Basic"
  shows "\<exists>chars. allowed_chars (Basic_password_generator c len) = Inr chars
     \<and> chars \<noteq> [] \<and> length chars \<le> 18 \<and> 0 \<le> distribution_b chars"
proof -
  from assms obtain chars where chars: "allowed_chars (Basic_password_generator c len) = Inr chars"
    and ne: "chars \<noteq> []" and short: "length chars \<le> 18"
    by (cases c) auto
  from short have "length chars \<le> 2 ^ 31" by simp
  from distribution_b_small [OF ne this] ne have "0 \<le> distribution_b chars"
    by (cases chars) simp_all
  with chars ne short show ?thesis by blast
qed

lemma policy_generate_of:
  assumes "policy (h p)" and "1 \<le> len_at (h p)" and "unat (len_at (h p)) \<le> unat max_size"
    and "18 \<le> unat max_size"
  shows "\<exists>s gen'. generate_of max_size (Suc n) h p gen = Some (Inr s, gen')
     \<and> length s = unat (len_at (h p)) \<and> set s \<subseteq> set (chars_at (h p))"
proof -
  from policy_cases [of h p, OF assms(1)] obtain c len
    where obj: "h p = Some (Basic_password_generator c len)" and c: "c \<noteq> Basic" by blast
  from policy_alphabet [OF c, of len] obtain chars
    where chars: "allowed_chars (Basic_password_generator c len) = Inr chars"
      and short: "length chars \<le> 18"
      and b: "0 \<le> distribution_b chars" by blast
  from short assms(4) have fit: "length chars \<le> unat max_size" by simp
  from assms(2) obj have one: "1 \<le> len" by simp
  from assms(3) obj unat_pred [OF one] have "Suc (unat (len - 1)) \<le> unat max_size" by simp
  from random_string_returns [OF b this, of gen] unat_pred [OF one] obj chars fit
  show ?thesis by (auto simp: generate_of_def)
qed

lemma policy_generate_of_zero:
  assumes "policy (h p)" and "len_at (h p) = 0"
  shows "\<exists>gen'. generate_of max_size (Suc n) h p gen = Some (Inl Length_or_alloc_error, gen')"
proof -
  from policy_cases [of h p, OF assms(1)] obtain c len
    where obj: "h p = Some (Basic_password_generator c len)" and c: "c \<noteq> Basic" by blast
  from policy_alphabet [OF c, of len] obtain chars
    where chars: "allowed_chars (Basic_password_generator c len) = Inr chars"
      and b: "0 \<le> distribution_b chars" by blast
  from assms(2) obj have "len = 0" by simp
  with random_string_zero [OF b, of max_size gen] obj chars show ?thesis
    by (cases "length chars \<le> unat max_size") (auto simp: generate_of_def)
qed

lemma generate_all_policies:
  "\<forall>p \<in> set ps. policy (h p) \<and> 1 \<le> len_at (h p) \<and> unat (len_at (h p)) \<le> unat max_size \<Longrightarrow>
   18 \<le> unat max_size \<Longrightarrow>
   \<exists>frags gen'. generate_all (generate_of max_size (Suc n) h) ps acc gen
       = Some (Inr (acc @ frags), gen')
     \<and> list_all2 (\<lambda>p s. length s = unat (len_at (h p)) \<and> s \<noteq> []
          \<and> set s \<subseteq> set (chars_at (h p))) ps frags"
proof (induction ps arbitrary: acc gen)
  case Nil
  then show ?case by simp
next
  case (Cons p ps)
  from Cons.prems have p: "policy (h p)" "1 \<le> len_at (h p)"
    "unat (len_at (h p)) \<le> unat max_size" by simp_all
  from policy_generate_of [of h p max_size n gen, OF p Cons.prems(2)] obtain s gen1
    where s: "generate_of max_size (Suc n) h p gen = Some (Inr s, gen1)"
      and l: "length s = unat (len_at (h p))"
      and sub: "set s \<subseteq> set (chars_at (h p))" by blast
  from p(2) have "0 < unat (len_at (h p))" by (simp add: word_le_nat_alt)
  with l have ne: "s \<noteq> []" by auto
  from Cons.prems have "\<forall>p \<in> set ps. policy (h p) \<and> 1 \<le> len_at (h p)
    \<and> unat (len_at (h p)) \<le> unat max_size" by simp
  from Cons.IH [OF this Cons.prems(2), of "acc @ [s]" gen1] obtain frags gen'
    where r: "generate_all (generate_of max_size (Suc n) h) ps (acc @ [s]) gen1
                = Some (Inr ((acc @ [s]) @ frags), gen')"
      and a: "list_all2 (\<lambda>p s. length s = unat (len_at (h p)) \<and> s \<noteq> []
          \<and> set s \<subseteq> set (chars_at (h p))) ps frags" by blast
  from s r have "generate_all (generate_of max_size (Suc n) h) (p # ps) acc gen
      = Some (Inr (acc @ s # frags), gen')" by simp
  moreover from l ne sub a
  have "list_all2 (\<lambda>p s. length s = unat (len_at (h p)) \<and> s \<noteq> []
          \<and> set s \<subseteq> set (chars_at (h p))) (p # ps) (s # frags)"
    by simp
  ultimately show ?case by blast
qed

lemma append_all_concat:
  "length acc + length (concat strs) \<le> unat max_size \<Longrightarrow>
   append_all max_size strs acc = Inr (acc @ concat strs)"
  by (induction strs arbitrary: acc) (simp_all add: append_str_def)

lemma append_all_outcome:
  "length acc \<le> unat max_size \<Longrightarrow>
   (append_all max_size strs acc = Inr (acc @ concat strs)
      \<and> length (acc @ concat strs) \<le> unat max_size)
   \<or> append_all max_size strs acc = Inl Length_or_alloc_error"
proof (induction strs arbitrary: acc)
  case Nil
  then show ?case by simp
next
  case (Cons str strs)
  show ?case
  proof (cases "length acc + length str \<le> unat max_size")
    case False
    then show ?thesis by (simp add: append_str_def)
  next
    case True
    then have "length (acc @ str) \<le> unat max_size" by simp
    from Cons.IH [OF this] True show ?thesis by (simp add: append_str_def)
  qed
qed

lemma random_string_one:
  assumes "0 \<le> distribution_b str" and "0 < unat max_size"
  shows "\<exists>t gen'. random_string max_size 1 str gen = (Inr [t], gen') \<and> t \<in> set str"
proof -
  from assms(2) have "Suc (unat (1 - 1 :: size_t)) \<le> unat max_size" by simp
  from random_string_returns [OF assms(1) this, of gen] obtain s gen'
    where r: "random_string max_size 1 str gen = (Inr s, gen')" and l: "length s = Suc 0"
      and sub: "set s \<subseteq> set str" by auto
  from l obtain t where "s = [t]" by (cases s) auto
  with r sub show ?thesis by auto
qed

lemma append_random_appends:
  "\<forall>s \<in> set strs. 0 \<le> distribution_b s \<Longrightarrow>
   length password + length strs \<le> unat max_size \<Longrightarrow>
   \<exists>ts gen'. append_random max_size strs password gen = (Inr (password @ ts), gen')
     \<and> list_all2 (\<lambda>t s. t \<in> set s) ts strs"
proof (induction strs arbitrary: password gen)
  case Nil
  then show ?case by simp
next
  case (Cons str strs)
  from Cons.prems have b: "0 \<le> distribution_b str" and room: "0 < unat max_size" by simp_all
  from random_string_one [OF b room, of gen] obtain t gen1
    where t: "random_string max_size 1 str gen = (Inr [t], gen1)" and m: "t \<in> set str"
    by blast
  from Cons.prems(2) have a1: "append_str max_size password [t] = Inr (password @ [t])"
    by (simp add: append_str_def)
  from Cons.prems have "\<forall>s \<in> set strs. 0 \<le> distribution_b s"
    and "length (password @ [t]) + length strs \<le> unat max_size" by simp_all
  from Cons.IH [OF this, of gen1] obtain ts gen'
    where r: "append_random max_size strs (password @ [t]) gen1
                = (Inr ((password @ [t]) @ ts), gen')"
      and a: "list_all2 (\<lambda>t s. t \<in> set s) ts strs" by blast
  from t a1 r have "append_random max_size (str # strs) password gen
      = (Inr (password @ t # ts), gen')"
    by simp
  moreover from m a have "list_all2 (\<lambda>t s. t \<in> set s) (t # ts) (str # strs)" by simp
  ultimately show ?case by blast
qed

lemma append_random_no_out_of_range:
  "fst (append_random max_size strs password gen) \<noteq> Inl (Out_of_range msg)"
proof (induction strs arbitrary: password gen)
  case Nil
  then show ?case by simp
next
  case (Cons str strs)
  from random_string_outcome [of max_size 1 str gen] show ?case
  proof (elim disjE exE conjE)
    fix s gen'
    assume "random_string max_size 1 str gen = (Inr s, gen')"
    with Cons.IH show ?thesis by (simp add: append_str_def)
  qed auto
qed

lemma find_max_returns:
  "list_all2 (\<lambda>p l. f p = Some (Inr l)) ps ls \<Longrightarrow>
   find_max f ps len = Some (Inr (fold max ls len))"
proof (induction ps arbitrary: ls len)
  case Nil
  then show ?case by simp
next
  case (Cons p ps)
  then obtain l ls' where ls: "ls = l # ls'" and l: "f p = Some (Inr l)"
    and rest: "list_all2 (\<lambda>p l. f p = Some (Inr l)) ps ls'"
    by (auto simp: list_all2_Cons1)
  show ?case
  proof (cases "len < l")
    case True
    then have "max l len = l" by simp
    with True l ls Cons.IH [OF rest, of l] show ?thesis by simp
  next
    case False
    then have "max l len = len" by simp
    with False l ls Cons.IH [OF rest, of len] show ?thesis by simp
  qed
qed

lemma fold_max_Max: "fold max ls (len::size_t) = Max (set (len # ls))"
  by (rule Max.set_eq_fold [symmetric])

lemma Max_with_zero: "ls \<noteq> [] \<Longrightarrow> Max (set ((0::size_t) # ls)) = Max (set ls)"
  by (simp add: max_def)

lemma policy_length_of:
  "policy (h p) \<Longrightarrow> length_of (Suc n) h p = Some (Inr (len_at (h p)))"
  by (auto dest!: policy_cases simp: length_of_def)

lemma policies_length:
  assumes "\<forall>p \<in> set generators. policy (h p)"
  shows "length_f (Suc (Suc n)) h (Composite_password_generator generators)
           = Some (Inr (max_length h generators))"
proof -
  have "list_all2 (\<lambda>p l. length_of (Suc n) h p = Some (Inr l)) generators
          (map (\<lambda>p. len_at (h p)) generators)"
    using assms by (simp add: list_all2_map2 list.rel_refl_strong policy_length_of)
  from find_max_returns [OF this, of 0] show ?thesis
    by (simp only: length_f_composite fold_max_Max max_length_def)
qed

lemma size_below:
  assumes "k < unat (pas_len :: size_t)"
  shows "\<not> pas_len \<le> of_nat k" and "Suc (unat (pas_len - of_nat k - 1)) = unat pas_len - k"
proof -
  have "unat pas_len < 2 ^ 64" using unsigned_less [of pas_len] by simp
  with assms have k: "unat (of_nat k :: size_t) = k" by (simp add: unat_of_nat)
  with assms show less: "\<not> pas_len \<le> of_nat k" by (simp add: word_le_nat_alt)
  then have "of_nat k \<le> pas_len" by simp
  then have d: "unat (pas_len - of_nat k) = unat pas_len - k" using k by (simp add: unat_sub)
  with assms have "unat (pas_len - of_nat k) \<noteq> 0" by simp
  then have "1 \<le> unat (pas_len - of_nat k)" by simp
  then have "1 \<le> pas_len - of_nat k" by (simp add: word_le_nat_alt)
  from unat_pred [OF this] d show "Suc (unat (pas_len - of_nat k - 1)) = unat pas_len - k"
    by simp
qed

lemma compose_short:
  "pas_len \<le> of_nat (length generated_strings) \<Longrightarrow>
   compose max_size pas_len generated_strings gen
     = (Inl (Out_of_range ''composite password generator: too short password''), gen)"
  by (simp add: compose_def)

lemma compose_not_short:
  assumes "\<not> pas_len \<le> of_nat (length generated_strings)"
  shows "fst (compose max_size pas_len generated_strings gen) \<noteq> Inl (Out_of_range msg)"
proof -
  have "length ([] :: string) \<le> unat max_size" by simp
  from append_all_outcome [OF this, of generated_strings]
  show ?thesis
  proof (elim disjE conjE)
    assume "append_all max_size generated_strings [] = Inl Length_or_alloc_error"
    with assms show ?thesis by (simp add: compose_def)
  next
    assume a: "append_all max_size generated_strings [] = Inr ([] @ concat generated_strings)"
    from random_string_outcome [of max_size "pas_len - of_nat (length generated_strings)"
        "concat generated_strings" gen]
    show ?thesis
    proof (elim disjE exE conjE)
      fix s gen'
      assume "random_string max_size (pas_len - of_nat (length generated_strings))
          (concat generated_strings) gen = (Inr s, gen')"
      with assms a append_random_no_out_of_range [of max_size generated_strings s gen' msg]
      show ?thesis by (simp add: compose_def)
    next
      fix gen'
      assume "random_string max_size (pas_len - of_nat (length generated_strings))
          (concat generated_strings) gen = (Inl Length_or_alloc_error, gen')"
      with assms a show ?thesis by (simp add: compose_def)
    next
      assume "random_string max_size (pas_len - of_nat (length generated_strings))
          (concat generated_strings) gen = (Inl Undefined, gen)"
      with assms a show ?thesis by (simp add: compose_def)
    qed
  qed
qed

lemma compose_builds:
  assumes ne: "\<forall>s \<in> set generated_strings. s \<noteq> []"
    and k: "length generated_strings < unat pas_len"
    and some: "generated_strings \<noteq> []"
    and fits: "length (concat generated_strings) \<le> unat max_size"
    and small: "length (concat generated_strings) \<le> 2 ^ 31"
    and pl: "unat pas_len \<le> unat max_size"
  shows "\<exists>filler trailing gen'.
     compose max_size pas_len generated_strings gen = (Inr (filler @ trailing), gen')
     \<and> length filler = unat pas_len - length generated_strings
     \<and> set filler \<subseteq> set (concat generated_strings)
     \<and> list_all2 (\<lambda>t s. t \<in> set s) trailing generated_strings"
proof -
  from ne some have cne: "concat generated_strings \<noteq> []" by (cases generated_strings) auto
  from distribution_b_small [OF cne small] cne
  have b: "0 \<le> distribution_b (concat generated_strings)"
    by (cases "concat generated_strings") simp_all
  from fits have a: "append_all max_size generated_strings [] = Inr (concat generated_strings)"
    using append_all_concat [of "[]" generated_strings max_size] by simp
  from size_below(2) [OF k] pl
  have "Suc (unat (pas_len - of_nat (length generated_strings) - 1)) \<le> unat max_size" by simp
  from random_string_returns [OF b this, of gen]
  obtain filler gen1 where
    f: "random_string max_size (pas_len - of_nat (length generated_strings))
          (concat generated_strings) gen = (Inr filler, gen1)"
    and l: "length filler = Suc (unat (pas_len - of_nat (length generated_strings) - 1))"
    and sub: "set filler \<subseteq> set (concat generated_strings)" by blast
  have each: "\<forall>s \<in> set generated_strings. 0 \<le> distribution_b s"
  proof
    fix s
    assume s: "s \<in> set generated_strings"
    with ne have sne: "s \<noteq> []" by simp
    from s have "length s \<le> length (concat generated_strings)"
      by (auto simp: length_concat intro: member_le_sum_list)
    with small have "length s \<le> 2 ^ 31" by simp
    from distribution_b_small [OF sne this] sne show "0 \<le> distribution_b s"
      by (cases s) simp_all
  qed
  from l size_below(2) [OF k] k pl
  have "length filler + length generated_strings \<le> unat max_size" by simp
  from append_random_appends [OF each this, of gen1] obtain trailing gen'
    where r: "append_random max_size generated_strings filler gen1
                = (Inr (filler @ trailing), gen')"
      and t: "list_all2 (\<lambda>t s. t \<in> set s) trailing generated_strings" by blast
  from size_below(1) [OF k] a f r
  have "compose max_size pas_len generated_strings gen = (Inr (filler @ trailing), gen')"
    by (simp add: compose_def)
  with l size_below(2) [OF k] sub t show ?thesis by auto
qed

lemma max_length_empty: "max_length h [] = 0"
  by (simp add: max_length_def)

lemma max_length_le_sum: "unat (max_length h generators) \<le> sum_length h generators"
proof -
  have "max_length h generators \<in> set (0 # map (\<lambda>p. len_at (h p)) generators)"
    unfolding max_length_def by (rule Max_in) simp_all
  then consider "max_length h generators = 0"
    | p where "p \<in> set generators" "max_length h generators = len_at (h p)" by auto
  then show ?thesis
  proof cases
    case 1
    then show ?thesis by simp
  next
    case 2
    then have "unat (max_length h generators) \<in> set (map (\<lambda>p. unat (len_at (h p))) generators)"
      by auto
    then show ?thesis unfolding sum_length_def by (simp add: member_le_sum_list)
  qed
qed

lemma len_le_sum: "p \<in> set generators \<Longrightarrow> unat (len_at (h p)) \<le> sum_length h generators"
  unfolding sum_length_def by (simp add: member_le_sum_list)

lemma fragments_length:
  "list_all2 (\<lambda>p s. length s = unat (len_at (h p)) \<and> Q p s) generators frags \<Longrightarrow>
   length (concat frags) = sum_length h generators"
  by (induction generators frags rule: list_all2_induct) (simp_all add: sum_length_def)

lemma composite_generate_short:
  assumes pol: "\<forall>p \<in> set generators. policy (h p) \<and> 1 \<le> len_at (h p)
      \<and> unat (len_at (h p)) \<le> unat max_size"
    and room: "18 \<le> unat max_size"
    and short: "max_length h generators \<le> of_nat (length generators)"
  shows "\<exists>gen'.
     generate_f max_size (Suc (Suc (Suc n))) h (Composite_password_generator generators) gen
     = Some (Inl (Out_of_range ''composite password generator: too short password''), gen')"
proof -
  from generate_all_policies [OF pol room, of "Suc n" "[]" gen] obtain frags gen1
    where g: "generate_all (generate_of max_size (Suc (Suc n)) h) generators [] gen
                = Some (Inr frags, gen1)"
      and a: "list_all2 (\<lambda>p s. length s = unat (len_at (h p)) \<and> s \<noteq> []
          \<and> set s \<subseteq> set (chars_at (h p))) generators frags"
    by auto
  from a have "length frags = length generators" by (simp add: list_all2_lengthD)
  with short have "max_length h generators \<le> of_nat (length frags)" by simp
  from pol have "\<forall>p \<in> set generators. policy (h p)" by simp
  from compose_short [OF \<open>max_length h generators \<le> of_nat (length frags)\<close>] g
    policies_length [OF this, of n]
  show ?thesis
    by (simp add: generate_f_composite del: generate_f.simps length_f.simps)
qed

lemma composite_generate_not_short:
  assumes pol: "\<forall>p \<in> set generators. policy (h p) \<and> 1 \<le> len_at (h p)
      \<and> unat (len_at (h p)) \<le> unat max_size"
    and room: "18 \<le> unat max_size"
    and long: "\<not> max_length h generators \<le> of_nat (length generators)"
  shows "\<not> (\<exists>gen'.
     generate_f max_size (Suc (Suc (Suc n))) h (Composite_password_generator generators) gen
     = Some (Inl (Out_of_range ''composite password generator: too short password''), gen'))"
proof -
  from generate_all_policies [OF pol room, of "Suc n" "[]" gen] obtain frags gen1
    where g: "generate_all (generate_of max_size (Suc (Suc n)) h) generators [] gen
                = Some (Inr frags, gen1)"
      and a: "list_all2 (\<lambda>p s. length s = unat (len_at (h p)) \<and> s \<noteq> []
          \<and> set s \<subseteq> set (chars_at (h p))) generators frags"
    by auto
  from a have "length frags = length generators" by (simp add: list_all2_lengthD)
  with long have "\<not> max_length h generators \<le> of_nat (length frags)" by simp
  from compose_not_short [OF this, of max_size gen1
      "''composite password generator: too short password''"]
  have "fst (compose max_size (max_length h generators) frags gen1)
      \<noteq> Inl (Out_of_range ''composite password generator: too short password'')" .
  moreover from pol have "\<forall>p \<in> set generators. policy (h p)" by simp
  from g policies_length [OF this, of n]
  have "generate_f max_size (Suc (Suc (Suc n))) h (Composite_password_generator generators) gen
      = Some (compose max_size (max_length h generators) frags gen1)"
    by (simp add: generate_f_composite del: generate_f.simps length_f.simps)
  ultimately show ?thesis by (auto simp del: generate_f.simps)
qed

lemma composite_generate_builds:
  assumes pol: "\<forall>p \<in> set generators. policy (h p) \<and> 1 \<le> len_at (h p)"
    and room: "18 \<le> unat max_size"
    and fits: "sum_length h generators \<le> unat max_size"
    and small: "sum_length h generators \<le> 2 ^ 31"
    and k: "length generators < unat (max_length h generators)"
  shows "\<exists>frags gen1 filler trailing gen'.
     generate_all (generate_of max_size (Suc (Suc n)) h) generators [] gen
       = Some (Inr frags, gen1)
     \<and> list_all2 (\<lambda>p s. length s = unat (len_at (h p)) \<and> s \<noteq> []
          \<and> set s \<subseteq> set (chars_at (h p))) generators frags
     \<and> generate_f max_size (Suc (Suc (Suc n))) h (Composite_password_generator generators) gen
         = Some (Inr (filler @ trailing), gen')
     \<and> length filler = unat (max_length h generators) - length generators
     \<and> set filler \<subseteq> set (concat frags)
     \<and> list_all2 (\<lambda>t s. t \<in> set s) trailing frags"
proof -
  from k have some: "generators \<noteq> []" by (auto simp: max_length_empty)
  from pol fits have pol': "\<forall>p \<in> set generators. policy (h p) \<and> 1 \<le> len_at (h p)
      \<and> unat (len_at (h p)) \<le> unat max_size"
    using len_le_sum [of _ generators h] by (meson order_trans)
  from generate_all_policies [OF pol' room, of "Suc n" "[]" gen] obtain frags gen1
    where g: "generate_all (generate_of max_size (Suc (Suc n)) h) generators [] gen
                = Some (Inr frags, gen1)"
      and a: "list_all2 (\<lambda>p s. length s = unat (len_at (h p)) \<and> s \<noteq> []
          \<and> set s \<subseteq> set (chars_at (h p))) generators frags"
    by auto
  from a have len: "length frags = length generators" by (simp add: list_all2_lengthD)
  from a have ne: "\<forall>s \<in> set frags. s \<noteq> []"
    by (auto simp: list_all2_conv_all_nth in_set_conv_nth)
  from len some have some': "frags \<noteq> []" by auto
  from k len have k': "length frags < unat (max_length h generators)" by simp
  from fragments_length [OF a] have total: "length (concat frags) = sum_length h generators" .
  from max_length_le_sum [of h generators] fits
  have pl: "unat (max_length h generators) \<le> unat max_size" by simp
  from total fits have fits': "length (concat frags) \<le> unat max_size" by simp
  from total small have small': "length (concat frags) \<le> 2 ^ 31" by simp
  from compose_builds [OF ne k' some' fits' small' pl, of gen1] obtain filler trailing gen'
    where c: "compose max_size (max_length h generators) frags gen1
                = (Inr (filler @ trailing), gen')"
      and l: "length filler = unat (max_length h generators) - length frags"
      and sub: "set filler \<subseteq> set (concat frags)"
      and t: "list_all2 (\<lambda>t s. t \<in> set s) trailing frags" by blast
  from pol have "\<forall>p \<in> set generators. policy (h p)" by simp
  from c g policies_length [OF this, of n]
  have "generate_f max_size (Suc (Suc (Suc n))) h (Composite_password_generator generators) gen
      = Some (Inr (filler @ trailing), gen')"
    by (simp add: generate_f_composite del: generate_f.simps length_f.simps)
  with g a l len sub t show ?thesis by auto
qed

lemma composite_generate_zero:
  assumes first: "policy (h p)" "len_at (h p) = 0"
    and rest: "\<forall>q \<in> set ps. policy (h q)"
  shows "\<exists>gen'.
     generate_f max_size (Suc (Suc (Suc n))) h (Composite_password_generator (p # ps)) gen
     = Some (Inl Length_or_alloc_error, gen')"
proof -
  from policy_generate_of_zero [of h p max_size "Suc n" gen, OF first] obtain gen'
    where "generate_of max_size (Suc (Suc n)) h p gen = Some (Inl Length_or_alloc_error, gen')"
    by blast
  then have "generate_all (generate_of max_size (Suc (Suc n)) h) (p # ps) [] gen
      = Some (Inl Length_or_alloc_error, gen')" by simp
  moreover from first rest have "\<forall>q \<in> set (p # ps). policy (h q)" by simp
  from policies_length [OF this, of n]
  have "length_f (Suc (Suc n)) h (Composite_password_generator (p # ps))
      = Some (Inr (max_length h (p # ps)))" .
  ultimately show ?thesis
    by (simp add: generate_f_composite del: generate_f.simps length_f.simps generate_all.simps)
qed

text \<open>
  C8, as the source has it. The length of a composite without registered generators is
  0. When the call of \<open>length()\<close> on every registered generator returns a value, the
  composite's \<open>length()\<close> returns the greatest of these values, which is the greatest of
  them and 0, and throws nothing. The function takes the store and the object and
  returns a length only: nothing is written, as in the source, which assigns to its local
  \<open>len\<close> only.
\<close>

theorem composite_length:
  "length_f (Suc n) h (Composite_password_generator []) = Some (Inr 0)
   \<and> (list_all2 (\<lambda>p l. length_of n h p = Some (Inr l)) generators ls \<longrightarrow>
        length_f (Suc n) h (Composite_password_generator generators)
          = Some (Inr (Max (set (0 # ls)))))
   \<and> (ls \<noteq> [] \<longrightarrow> Max (set (0 # ls)) = Max (set ls))"
  using find_max_returns [of "length_of n h" generators ls 0]
  by (simp only: length_f_composite fold_max_Max Max_with_zero) simp

theorem composite_length_witness:
  "list_all2 (\<lambda>p l. length_of 1 four_of_16 p = Some (Inr l)) [0, 1, 2, 3] [16, 16, 16, 16]
   \<and> length_f 2 four_of_16 (Composite_password_generator [0, 1, 2, 3])
       = Some (Inr (Max (set [0, 16, 16, 16, 16])))
   \<and> [16, 16, 16, 16 :: size_t] \<noteq> []
   \<and> Max (set [0, 16, 16, 16, 16 :: size_t]) = Max (set [16, 16, 16, 16])"
proof -
  have children:
    "list_all2 (\<lambda>p l. length_of 1 four_of_16 p = Some (Inr l)) [0, 1, 2, 3] [16, 16, 16, 16]"
    by (simp add: length_of_def four_of_16_def digit_generator_def symbol_generator_def
        upper_letter_generator_def lower_letter_generator_def)
  with composite_length [of 1 four_of_16 "[0, 1, 2, 3]" "[16, 16, 16, 16]"]
  show ?thesis by (simp add: numeral_2_eq_2)
qed

text \<open>
  C8, as the claim has it, fails: in a composite in which an object of the base class
  \<open>password_generator\<close> is registered, \<open>length()\<close> throws the \<open>std::runtime_error\<close>
  of that object's \<open>length()\<close>.
\<close>

theorem composite_length_base_object_counterexample:
  "\<forall>n. length_f (Suc (Suc n)) base_object (Composite_password_generator [0])
     = Some (Inl (Runtime_error ''password_generator: can't return length.''))"
  by (simp add: base_object_def)

text \<open>
  C7, as the source has it. Take a composite of \<open>k\<close> policies, each of length at least
  1, whose lengths add up to at most \<open>max_size\<close> and at most \<open>2 ^ 31\<close> characters, and
  whose greatest length exceeds \<open>k\<close>; let a string hold the 18 characters of the
  longest alphabet. The password is a filler followed by a trailing block. The filler has \<open>totalLen - k\<close> characters, each of them a character of the
  concatenation of the strings that the policies generated. The trailing block has \<open>k\<close>
  characters, and its \<open>i\<close>-th character is a character of the string that the \<open>i\<close>-th
  registered policy generated.
\<close>

theorem composite_generate_structure:
  assumes "\<forall>p \<in> set generators. policy (h p) \<and> 1 \<le> len_at (h p)"
    and "18 \<le> unat max_size"
    and "sum_length h generators \<le> unat max_size"
    and "sum_length h generators \<le> 2 ^ 31"
    and "length generators < unat (max_length h generators)"
  shows "\<exists>frags gen1 filler trailing gen'.
     generate_all (generate_of max_size (Suc (Suc n)) h) generators [] gen
       = Some (Inr frags, gen1)
     \<and> generate_f max_size (Suc (Suc (Suc n))) h (Composite_password_generator generators) gen
         = Some (Inr (filler @ trailing), gen')
     \<and> length filler = unat (max_length h generators) - length generators
     \<and> set filler \<subseteq> set (concat frags)
     \<and> length trailing = length generators
     \<and> length frags = length generators
     \<and> (\<forall>i < length generators. trailing ! i \<in> set (frags ! i))"
proof -
  from composite_generate_builds [OF assms, of n gen] obtain frags gen1 filler trailing gen'
    where g: "generate_all (generate_of max_size (Suc (Suc n)) h) generators [] gen
                = Some (Inr frags, gen1)"
      and a: "list_all2 (\<lambda>p s. length s = unat (len_at (h p)) \<and> s \<noteq> []
          \<and> set s \<subseteq> set (chars_at (h p))) generators frags"
      and r: "generate_f max_size (Suc (Suc (Suc n))) h
                (Composite_password_generator generators) gen
                = Some (Inr (filler @ trailing), gen')"
      and l: "length filler = unat (max_length h generators) - length generators"
      and sub: "set filler \<subseteq> set (concat frags)"
      and t: "list_all2 (\<lambda>t s. t \<in> set s) trailing frags" by blast
  from a have len: "length frags = length generators" by (simp add: list_all2_lengthD)
  from t have len': "length trailing = length frags" by (simp add: list_all2_lengthD)
  from t len have "\<forall>i < length generators. trailing ! i \<in> set (frags ! i)"
    by (simp add: list_all2_conv_all_nth)
  with g r l sub len len' show ?thesis by auto
qed

lemma four_of_16_facts:
  "policy (four_of_16 0) \<and> policy (four_of_16 1) \<and> policy (four_of_16 2) \<and> policy (four_of_16 3)"
  "len_at (four_of_16 0) = 16 \<and> len_at (four_of_16 1) = 16
   \<and> len_at (four_of_16 2) = 16 \<and> len_at (four_of_16 3) = 16"
  "max_length four_of_16 [0, 1, 2, 3] = 16"
  "sum_length four_of_16 [0, 1, 2, 3] = 64"
  by (simp_all add: max_length_def sum_length_def four_of_16_def digit_generator_def
      symbol_generator_def upper_letter_generator_def lower_letter_generator_def)

theorem composite_generate_structure_witness:
  "(policy (four_of_16 0) \<and> 1 \<le> len_at (four_of_16 0))
   \<and> (policy (four_of_16 1) \<and> 1 \<le> len_at (four_of_16 1))
   \<and> (policy (four_of_16 2) \<and> 1 \<le> len_at (four_of_16 2))
   \<and> (policy (four_of_16 3) \<and> 1 \<le> len_at (four_of_16 3))
   \<and> 18 \<le> unat (1000 :: size_t)
   \<and> sum_length four_of_16 [0, 1, 2, 3] \<le> unat (1000 :: size_t)
   \<and> sum_length four_of_16 [0, 1, 2, 3] \<le> 2 ^ 31
   \<and> length [0, 1, 2, 3 :: addr] < unat (max_length four_of_16 [0, 1, 2, 3])
   \<and> (\<exists>frags gen1 filler trailing gen'.
         generate_all (generate_of 1000 (Suc (Suc 0)) four_of_16) [0, 1, 2, 3] [] counting
           = Some (Inr frags, gen1)
         \<and> generate_f 1000 (Suc (Suc (Suc 0))) four_of_16
             (Composite_password_generator [0, 1, 2, 3]) counting
             = Some (Inr (filler @ trailing), gen')
         \<and> length filler = unat (max_length four_of_16 [0, 1, 2, 3]) - length [0, 1, 2, 3 :: addr]
         \<and> set filler \<subseteq> set (concat frags)
         \<and> length trailing = length [0, 1, 2, 3 :: addr]
         \<and> length frags = length [0, 1, 2, 3 :: addr]
         \<and> (\<forall>i < length [0, 1, 2, 3 :: addr]. trailing ! i \<in> set (frags ! i)))"
proof -
  have pol: "\<forall>p \<in> set [0, 1, 2, 3]. policy (four_of_16 p) \<and> 1 \<le> len_at (four_of_16 p)"
    using four_of_16_facts(1,2) by simp
  have room: "18 \<le> unat (1000 :: size_t)" by simp
  have fits: "sum_length four_of_16 [0, 1, 2, 3] \<le> unat (1000 :: size_t)"
    using four_of_16_facts(4) by simp
  have small: "sum_length four_of_16 [0, 1, 2, 3] \<le> 2 ^ 31"
    using four_of_16_facts(4) by simp
  have less: "length [0, 1, 2, 3 :: addr] < unat (max_length four_of_16 [0, 1, 2, 3])"
    using four_of_16_facts(3) by simp
  from pol have each: "(policy (four_of_16 0) \<and> 1 \<le> len_at (four_of_16 0))
   \<and> (policy (four_of_16 1) \<and> 1 \<le> len_at (four_of_16 1))
   \<and> (policy (four_of_16 2) \<and> 1 \<le> len_at (four_of_16 2))
   \<and> (policy (four_of_16 3) \<and> 1 \<le> len_at (four_of_16 3))"
    by simp
  show ?thesis
    using each room fits small less
      composite_generate_structure [OF pol room fits small less, of 0 counting]
    by (simp only: simp_thms)
qed

lemma zero_first:
  "policy (zero_and_three 0)" "len_at (zero_and_three 0) = 0" "policy (zero_and_three 1)"
  "max_length zero_and_three [0, 1] = 3"
  "policy (zero_and_five 0)" "len_at (zero_and_five 0) = 0" "policy (zero_and_five 1)"
  "max_length zero_and_five [0, 1] = 5"
  "policy (single_of_0 0)" "len_at (single_of_0 0) = 0"
  "max_length single_of_0 [0] = 0"
  by (simp_all add: max_length_def zero_and_three_def zero_and_five_def single_of_0_def
      digit_generator_def symbol_generator_def upper_letter_generator_def
      lower_letter_generator_def)

text \<open>
  C7, as the claim has it, fails: an upper-letter policy of length 0 and a symbol policy
  of length 3 give a composite with \<open>totalLen = 3 > 2 = k\<close>, and \<open>generate()\<close> ends
  with the exception of a string that cannot grow, in the \<open>generate()\<close> of the first
  policy, whatever \<open>max_size\<close> is. There is no filler and no trailing block.
\<close>

theorem composite_generate_structure_counterexample:
  "length [0, 1 :: addr] < unat (max_length zero_and_three [0, 1])
   \<and> (\<forall>max_size. map_option fst
          (generate_f max_size 3 zero_and_three (Composite_password_generator [0, 1]) counting)
        = Some (Inl Length_or_alloc_error))"
proof -
  have "map_option fst
          (generate_f max_size 3 zero_and_three (Composite_password_generator [0, 1]) counting)
        = Some (Inl Length_or_alloc_error)" for max_size
    using composite_generate_zero [of zero_and_three 0 "[1]" max_size 0 counting] zero_first(1-3)
    by (auto simp add: numeral_3_eq_3 simp del: generate_f.simps)
  then show ?thesis using zero_first(4) by simp
qed

lemma composite_generate_classes:
  assumes pol: "\<forall>p \<in> set generators. policy (h p) \<and> 1 \<le> len_at (h p)"
    and room: "18 \<le> unat max_size"
    and fits: "sum_length h generators \<le> unat max_size"
    and small: "sum_length h generators \<le> 2 ^ 31"
    and k: "length generators < unat (max_length h generators)"
  shows "\<exists>password gen'.
     generate_f max_size (Suc (Suc (Suc n))) h (Composite_password_generator generators) gen
       = Some (Inr password, gen')
     \<and> length password = unat (max_length h generators)
     \<and> (\<forall>p \<in> set generators. \<exists>x \<in> set password. x \<in> set (chars_at (h p)))"
proof -
  from composite_generate_builds [OF assms, of n gen] obtain frags gen1 filler trailing gen'
    where a: "list_all2 (\<lambda>p s. length s = unat (len_at (h p)) \<and> s \<noteq> []
          \<and> set s \<subseteq> set (chars_at (h p))) generators frags"
      and r: "generate_f max_size (Suc (Suc (Suc n))) h
                (Composite_password_generator generators) gen
                = Some (Inr (filler @ trailing), gen')"
      and l: "length filler = unat (max_length h generators) - length generators"
      and t: "list_all2 (\<lambda>t s. t \<in> set s) trailing frags" by blast
  from a have len: "length frags = length generators" by (simp add: list_all2_lengthD)
  from t have len': "length trailing = length frags" by (simp add: list_all2_lengthD)
  from l len len' k have "length (filler @ trailing) = unat (max_length h generators)" by simp
  moreover have "\<exists>x \<in> set (filler @ trailing). x \<in> set (chars_at (h p))"
    if "p \<in> set generators" for p
  proof -
    from that obtain i where i: "i < length generators" and p: "generators ! i = p"
      by (auto simp: in_set_conv_nth)
    from t i len have "trailing ! i \<in> set (frags ! i)" by (simp add: list_all2_conv_all_nth)
    moreover from a i p have "set (frags ! i) \<subseteq> set (chars_at (h p))"
      by (auto simp: list_all2_conv_all_nth)
    moreover from i len len' have "trailing ! i \<in> set trailing" by simp
    ultimately show ?thesis by auto
  qed
  ultimately show ?thesis using r by blast
qed

lemma max_length_all_equal:
  assumes "generators \<noteq> []" and "\<forall>p \<in> set generators. len_at (h p) = l"
  shows "max_length h generators = l"
proof -
  from assms have "set (map (\<lambda>p. len_at (h p)) generators) = {l}" by (cases generators) auto
  then have "max_length h generators = Max {0, l}" by (simp add: max_length_def)
  then show ?thesis by (simp add: max_def)
qed

lemma sum_length_all_equal:
  "\<forall>p \<in> set generators. len_at (h p) = l \<Longrightarrow>
   sum_length h generators = length generators * unat l"
  by (induction generators) (simp_all add: sum_length_def)

text \<open>
  C1, as the source has it. Take a composite of \<open>k\<close> policies, each of length at least
  1, whose lengths add up to at most \<open>max_size\<close> and at most \<open>2 ^ 31\<close> characters, and
  whose greatest length exceeds \<open>k\<close>; let a string hold the 18 characters of the
  longest alphabet. Then \<open>generate()\<close> returns a password whose length
  is the greatest length among the policies, and that contains, for every registered
  policy, a character of the alphabet of this policy. In particular, for four registered
  policies of length 16 each, where strings can hold 64 characters, the password has
  exactly 16 characters, with a character of every policy's alphabet.
\<close>

theorem composite_generate_length_and_classes:
  "((\<forall>p \<in> set generators. policy (h p) \<and> 1 \<le> len_at (h p))
      \<and> 18 \<le> unat max_size
      \<and> sum_length h generators \<le> unat max_size \<and> sum_length h generators \<le> 2 ^ 31
      \<and> length generators < unat (max_length h generators)
      \<longrightarrow> (\<exists>password gen'.
             generate_f max_size (Suc (Suc (Suc n))) h
               (Composite_password_generator generators) gen
               = Some (Inr password, gen')
             \<and> length password = unat (max_length h generators)
             \<and> (\<forall>p \<in> set generators. \<exists>x \<in> set password. x \<in> set (chars_at (h p)))))
   \<and> ((\<forall>p \<in> set generators. policy (h p) \<and> len_at (h p) = 16) \<and> length generators = 4
      \<and> 64 \<le> unat max_size
      \<longrightarrow> (\<exists>password gen'.
             generate_f max_size (Suc (Suc (Suc n))) h
               (Composite_password_generator generators) gen
               = Some (Inr password, gen')
             \<and> length password = 16
             \<and> (\<forall>p \<in> set generators. \<exists>x \<in> set password. x \<in> set (chars_at (h p)))))"
proof (intro conjI impI)
  assume "(\<forall>p \<in> set generators. policy (h p) \<and> 1 \<le> len_at (h p))
      \<and> 18 \<le> unat max_size
      \<and> sum_length h generators \<le> unat max_size \<and> sum_length h generators \<le> 2 ^ 31
      \<and> length generators < unat (max_length h generators)"
  then show "\<exists>password gen'.
      generate_f max_size (Suc (Suc (Suc n))) h (Composite_password_generator generators) gen
        = Some (Inr password, gen')
      \<and> length password = unat (max_length h generators)
      \<and> (\<forall>p \<in> set generators. \<exists>x \<in> set password. x \<in> set (chars_at (h p)))"
    using composite_generate_classes [of generators h max_size n gen] by blast
next
  assume four: "(\<forall>p \<in> set generators. policy (h p) \<and> len_at (h p) = 16)
    \<and> length generators = 4 \<and> 64 \<le> unat max_size"
  then have ne: "generators \<noteq> []" by auto
  from four have all: "\<forall>p \<in> set generators. len_at (h p) = 16" by simp
  from max_length_all_equal [OF ne all] have m: "max_length h generators = 16" .
  from sum_length_all_equal [OF all] four have s: "sum_length h generators = 64" by simp
  from four have pol: "\<forall>p \<in> set generators. policy (h p) \<and> 1 \<le> len_at (h p)" by simp
  from s four have fits: "sum_length h generators \<le> unat max_size" by simp
  from four have room: "18 \<le> unat max_size" by simp
  from s have small: "sum_length h generators \<le> 2 ^ 31" by simp
  from m four have k: "length generators < unat (max_length h generators)" by simp
  from composite_generate_classes [OF pol room fits small k, of n gen] m
  show "\<exists>password gen'.
      generate_f max_size (Suc (Suc (Suc n))) h (Composite_password_generator generators) gen
        = Some (Inr password, gen')
      \<and> length password = 16
      \<and> (\<forall>p \<in> set generators. \<exists>x \<in> set password. x \<in> set (chars_at (h p)))"
    by (simp del: generate_f.simps)
qed

theorem composite_generate_length_and_classes_witness:
  "(policy (four_of_16 0) \<and> len_at (four_of_16 0) = 16)
   \<and> (policy (four_of_16 1) \<and> len_at (four_of_16 1) = 16)
   \<and> (policy (four_of_16 2) \<and> len_at (four_of_16 2) = 16)
   \<and> (policy (four_of_16 3) \<and> len_at (four_of_16 3) = 16)
   \<and> length [0, 1, 2, 3 :: addr] = 4
   \<and> 64 \<le> unat (1000 :: size_t)
   \<and> (\<exists>password gen'.
         generate_f 1000 (Suc (Suc (Suc 0))) four_of_16
           (Composite_password_generator [0, 1, 2, 3]) counting
           = Some (Inr password, gen')
         \<and> length password = 16
         \<and> (\<forall>p \<in> set [0, 1, 2, 3]. \<exists>x \<in> set password. x \<in> set (chars_at (four_of_16 p))))"
proof -
  have pol: "\<forall>p \<in> set [0, 1, 2, 3]. policy (four_of_16 p) \<and> len_at (four_of_16 p) = 16"
    using four_of_16_facts(1,2) by simp
  have four: "length [0, 1, 2, 3 :: addr] = 4" by simp
  have room: "64 \<le> unat (1000 :: size_t)" by simp
  from pol have each: "(policy (four_of_16 0) \<and> len_at (four_of_16 0) = 16)
   \<and> (policy (four_of_16 1) \<and> len_at (four_of_16 1) = 16)
   \<and> (policy (four_of_16 2) \<and> len_at (four_of_16 2) = 16)
   \<and> (policy (four_of_16 3) \<and> len_at (four_of_16 3) = 16)"
    by simp
  from composite_generate_length_and_classes [of "[0, 1, 2, 3]" four_of_16 1000 0 counting]
    pol four room
  have "\<exists>password gen'.
         generate_f 1000 (Suc (Suc (Suc 0))) four_of_16
           (Composite_password_generator [0, 1, 2, 3]) counting
           = Some (Inr password, gen')
         \<and> length password = 16
         \<and> (\<forall>p \<in> set [0, 1, 2, 3]. \<exists>x \<in> set password. x \<in> set (chars_at (four_of_16 p)))"
    by blast
  with each four room show ?thesis by (simp only: simp_thms)
qed

text \<open>
  C1, as the claim has it, fails: a digit policy of length 0 and a lower-letter policy of
  length 5 give a composite with \<open>totalLen = 5 > 2 = k\<close>, and \<open>generate()\<close> returns no
  password: it ends with the exception of a string that cannot grow, in the
  \<open>generate()\<close> of the first policy, whatever \<open>max_size\<close> is.
\<close>

theorem composite_generate_length_and_classes_counterexample:
  "length [0, 1 :: addr] < unat (max_length zero_and_five [0, 1])
   \<and> (\<forall>max_size. map_option fst
          (generate_f max_size 3 zero_and_five (Composite_password_generator [0, 1]) counting)
        = Some (Inl Length_or_alloc_error))"
proof -
  have "map_option fst
          (generate_f max_size 3 zero_and_five (Composite_password_generator [0, 1]) counting)
        = Some (Inl Length_or_alloc_error)" for max_size
    using composite_generate_zero [of zero_and_five 0 "[1]" max_size 0 counting] zero_first(5-7)
    by (auto simp add: numeral_3_eq_3 simp del: generate_f.simps)
  then show ?thesis using zero_first(8) by simp
qed

text \<open>
  C2, as the source has it. Take a composite of policies, each of a length from 1 up to
  \<open>max_size\<close>, and let a string hold the 18 characters of the longest alphabet. Then
  \<open>generate()\<close> throws the \<open>std::out_of_range\<close> of the too short
  password exactly when the greatest length among the policies is at most the number of
  registered policies; the outcome is then the exception, and no password. A composite
  without registered policies throws it, and so does a composite whose only registered
  policy has length 1. The number of registered policies is the size of a vector, which
  is a \<open>size_t\<close>.
\<close>

theorem composite_generate_too_short:
  assumes "\<forall>p \<in> set generators. policy (h p) \<and> 1 \<le> len_at (h p)
      \<and> unat (len_at (h p)) \<le> unat max_size"
    and "18 \<le> unat max_size"
    and "length generators < 2 ^ 64"
  shows "((\<exists>gen'. generate_f max_size (Suc (Suc (Suc n))) h
               (Composite_password_generator generators) gen
             = Some (Inl (Out_of_range ''composite password generator: too short password''),
                     gen'))
          \<longleftrightarrow> unat (max_length h generators) \<le> length generators)
     \<and> generate_f max_size (Suc (Suc (Suc n))) h (Composite_password_generator []) gen
         = Some (Inl (Out_of_range ''composite password generator: too short password''), gen)
     \<and> (generators = [p] \<and> len_at (h p) = 1 \<longrightarrow>
          (\<exists>gen'. generate_f max_size (Suc (Suc (Suc n))) h
               (Composite_password_generator [p]) gen
             = Some (Inl (Out_of_range ''composite password generator: too short password''),
                     gen')))"
proof -
  from assms(3) have size: "unat (of_nat (length generators) :: size_t) = length generators"
    by (simp add: unat_of_nat)
  have short: "\<exists>gen'.
      generate_f max_size (Suc (Suc (Suc n))) h (Composite_password_generator generators) gen
        = Some (Inl (Out_of_range ''composite password generator: too short password''), gen')"
    if "unat (max_length h generators) \<le> length generators"
  proof -
    from that size have "max_length h generators \<le> of_nat (length generators)"
      by (simp add: word_le_nat_alt)
    from composite_generate_short [OF assms(1,2) this] show ?thesis .
  qed
  have long: "\<not> (\<exists>gen'.
      generate_f max_size (Suc (Suc (Suc n))) h (Composite_password_generator generators) gen
        = Some (Inl (Out_of_range ''composite password generator: too short password''), gen'))"
    if "\<not> unat (max_length h generators) \<le> length generators"
  proof -
    from that size have "\<not> max_length h generators \<le> of_nat (length generators)"
      by (simp add: word_le_nat_alt)
    from composite_generate_not_short [OF assms(1,2) this] show ?thesis .
  qed
  have empty: "generate_f max_size (Suc (Suc (Suc n))) h (Composite_password_generator []) gen
      = Some (Inl (Out_of_range ''composite password generator: too short password''), gen)"
    by (simp add: compose_def)
  have single: "\<exists>gen'. generate_f max_size (Suc (Suc (Suc n))) h
        (Composite_password_generator [p]) gen
      = Some (Inl (Out_of_range ''composite password generator: too short password''), gen')"
    if "generators = [p]" and "len_at (h p) = 1"
  proof -
    from that have "max_length h generators = 1" using max_length_all_equal [of generators h 1]
      by simp
    with that(1) have "unat (max_length h generators) \<le> length generators" by simp
    from short [OF this] that(1) show ?thesis by simp
  qed
  from short long empty single show ?thesis by blast
qed

theorem composite_generate_too_short_witness:
  "(policy (single_of_1 0) \<and> 1 \<le> len_at (single_of_1 0)
      \<and> unat (len_at (single_of_1 0)) \<le> unat (1000 :: size_t))
   \<and> 18 \<le> unat (1000 :: size_t)
   \<and> length [0 :: addr] < 2 ^ 64
   \<and> [0 :: addr] = [0] \<and> len_at (single_of_1 0) = 1
   \<and> unat (max_length single_of_1 [0]) \<le> length [0 :: addr]
   \<and> (\<exists>gen'. generate_f 1000 (Suc (Suc (Suc 0))) single_of_1
         (Composite_password_generator [0]) counting
         = Some (Inl (Out_of_range ''composite password generator: too short password''),
                 gen'))"
proof -
  have pol: "\<forall>p \<in> set [0]. policy (single_of_1 p) \<and> 1 \<le> len_at (single_of_1 p)
      \<and> unat (len_at (single_of_1 p)) \<le> unat (1000 :: size_t)"
    by (simp add: single_of_1_def digit_generator_def)
  have k: "length [0 :: addr] < 2 ^ 64" by simp
  have room: "18 \<le> unat (1000 :: size_t)" by simp
  have l: "len_at (single_of_1 0) = 1"
    by (simp add: single_of_1_def digit_generator_def)
  have m: "unat (max_length single_of_1 [0]) \<le> length [0 :: addr]"
    by (simp add: max_length_def single_of_1_def digit_generator_def)
  from pol have each: "policy (single_of_1 0) \<and> 1 \<le> len_at (single_of_1 0)
      \<and> unat (len_at (single_of_1 0)) \<le> unat (1000 :: size_t)" by simp
  from composite_generate_too_short [OF pol room k, of 0 counting 0] l
  have "\<exists>gen'. generate_f 1000 (Suc (Suc (Suc 0))) single_of_1
         (Composite_password_generator [0]) counting
         = Some (Inl (Out_of_range ''composite password generator: too short password''),
                 gen')"
    by blast
  with each room k l m show ?thesis by (simp only: simp_thms)
qed

text \<open>
  C2, as the claim has it, fails: for a composite whose only registered policy is a digit
  policy of length 0, \<open>totalLen = 0 \<le> 1 = k\<close>, and yet \<open>generate()\<close> does not throw
  the \<open>std::out_of_range\<close> of the too short password: the \<open>generate()\<close> of the policy
  runs before the test, and ends with the exception of a string that cannot grow.
\<close>

theorem composite_generate_too_short_counterexample:
  "unat (max_length single_of_0 [0]) \<le> length [0 :: addr]
   \<and> (\<forall>max_size. map_option fst
          (generate_f max_size 3 single_of_0 (Composite_password_generator [0]) counting)
        = Some (Inl Length_or_alloc_error))"
proof -
  have "map_option fst
          (generate_f max_size 3 single_of_0 (Composite_password_generator [0]) counting)
        = Some (Inl Length_or_alloc_error)" for max_size
    using composite_generate_zero [of single_of_0 0 "[]" max_size 0 counting] zero_first(9,10)
    by (auto simp add: numeral_3_eq_3 simp del: generate_f.simps)
  then show ?thesis using zero_first(11) by simp
qed

subsection \<open>Termination\<close>

text \<open>A result that was reached at one nesting depth is the result at every greater one.\<close>

lemma find_max_mono:
  "find_max f ps len = Some r \<Longrightarrow> (\<And>p r. p \<in> set ps \<Longrightarrow> f p = Some r \<Longrightarrow> g p = Some r)
   \<Longrightarrow> find_max g ps len = Some r"
proof (induction ps arbitrary: len)
  case Nil
  then show ?case by simp
next
  case (Cons p ps)
  from Cons.prems(1) obtain x where x: "f p = Some x" by (cases "f p") auto
  with Cons.prems(2) have y: "g p = Some x" by simp
  have rest: "\<And>q r. q \<in> set ps \<Longrightarrow> f q = Some r \<Longrightarrow> g q = Some r"
    using Cons.prems(2) by simp
  show ?case
  proof (cases x)
    case (Inl e)
    with x y Cons.prems(1) show ?thesis by auto
  next
    case (Inr l)
    with x y Cons.prems(1) Cons.IH [OF _ rest] show ?thesis
      by (cases "len < l") simp_all
  qed
qed

lemma length_f_Suc: "length_f n h obj = Some r \<Longrightarrow> length_f (Suc n) h obj = Some r"
proof (induction n arbitrary: obj r)
  case 0
  then show ?case by simp
next
  case (Suc n)
  show ?case
  proof (cases obj)
    case (Composite_password_generator generators)
    with Suc.prems have "find_max (length_of n h) generators 0 = Some r"
      by (simp only: length_f_composite)
    then have "find_max (length_of (Suc n) h) generators 0 = Some r"
    proof (rule find_max_mono)
      fix p x
      assume "length_of n h p = Some x"
      then show "length_of (Suc n) h p = Some x"
        using Suc.IH by (cases "h p") (simp_all add: length_of_def del: length_f.simps)
    qed
    with Composite_password_generator show ?thesis by (simp only: length_f_composite)
  next
    case Password_generator
    with Suc.prems show ?thesis by simp
  next
    case (Basic_password_generator c len)
    with Suc.prems show ?thesis by simp
  qed
qed

lemma length_f_mono: "length_f n h obj = Some r \<Longrightarrow> n \<le> m \<Longrightarrow> length_f m h obj = Some r"
  by (induction m) (auto simp: le_Suc_eq length_f_Suc simp del: length_f.simps)

lemma generate_all_mono:
  "generate_all f ps acc gen = Some r
   \<Longrightarrow> (\<And>p g r. p \<in> set ps \<Longrightarrow> f p g = Some r \<Longrightarrow> f' p g = Some r)
   \<Longrightarrow> generate_all f' ps acc gen = Some r"
proof (induction ps arbitrary: acc gen)
  case Nil
  then show ?case by simp
next
  case (Cons p ps)
  from Cons.prems(1) obtain x gen1 where x: "f p gen = Some (x, gen1)"
    by (cases "f p gen") auto
  with Cons.prems(2) have y: "f' p gen = Some (x, gen1)" by simp
  have rest: "\<And>q g r. q \<in> set ps \<Longrightarrow> f q g = Some r \<Longrightarrow> f' q g = Some r"
    using Cons.prems(2) by simp
  show ?case
  proof (cases x)
    case (Inl e)
    with x y Cons.prems(1) show ?thesis by auto
  next
    case (Inr s)
    with x y Cons.prems(1) Cons.IH [OF _ rest] show ?thesis by simp
  qed
qed

lemma generate_f_Suc:
  "generate_f max_size n h obj gen = Some r \<Longrightarrow> generate_f max_size (Suc n) h obj gen = Some r"
proof (induction n arbitrary: obj gen r)
  case 0
  then show ?case by simp
next
  case (Suc n)
  show ?case
  proof (cases obj)
    case (Composite_password_generator generators)
    from Suc.prems obtain x where x: "length_f n h obj = Some x"
      unfolding Composite_password_generator generate_f_composite
      by (cases "length_f n h (Composite_password_generator generators)") auto
    then have x': "length_f (Suc n) h obj = Some x" by (rule length_f_Suc)
    show ?thesis
    proof (cases x)
      case (Inl e)
      with x x' Suc.prems show ?thesis
        unfolding Composite_password_generator generate_f_composite by simp
    next
      case (Inr pas_len)
      from Suc.prems x Inr obtain y where
        y: "generate_all (generate_of max_size n h) generators [] gen = Some y"
        unfolding Composite_password_generator generate_f_composite
        by (cases "generate_all (generate_of max_size n h) generators [] gen") auto
      then have y': "generate_all (generate_of max_size (Suc n) h) generators [] gen = Some y"
      proof (rule generate_all_mono)
        fix p g z
        assume "generate_of max_size n h p g = Some z"
        then show "generate_of max_size (Suc n) h p g = Some z"
          using Suc.IH by (cases "h p") (simp_all add: generate_of_def del: generate_f.simps)
      qed
      from Suc.prems x x' Inr y y' show ?thesis
        unfolding Composite_password_generator generate_f_composite by simp
    qed
  next
    case Password_generator
    with Suc.prems show ?thesis by simp
  next
    case (Basic_password_generator c len)
    with Suc.prems show ?thesis by simp
  qed
qed

lemma generate_f_mono:
  "generate_f max_size n h obj gen = Some r \<Longrightarrow> n \<le> m
   \<Longrightarrow> generate_f max_size m h obj gen = Some r"
  by (induction m) (auto simp: le_Suc_eq generate_f_Suc simp del: generate_f.simps)

lemma settles_mono: "settles max_size n h obj \<Longrightarrow> n \<le> m \<Longrightarrow> settles max_size m h obj"
  unfolding settles_def by (meson length_f_mono generate_f_mono)

lemma settles_common:
  "\<forall>p \<in> set ps. \<exists>obj. h p = Some obj \<and> (\<exists>n. settles max_size n h obj)
   \<Longrightarrow> \<exists>N. \<forall>p \<in> set ps. \<exists>obj. h p = Some obj \<and> settles max_size N h obj"
proof (induction ps)
  case Nil
  then show ?case by simp
next
  case (Cons p ps)
  then obtain N where N: "\<forall>q \<in> set ps. \<exists>obj. h q = Some obj \<and> settles max_size N h obj"
    by auto
  from Cons.prems obtain obj n where p: "h p = Some obj" "settles max_size n h obj" by auto
  have "\<exists>obj. h q = Some obj \<and> settles max_size (max n N) h obj" if "q \<in> set (p # ps)" for q
  proof (cases "q = p")
    case True
    with p settles_mono [OF p(2), of "max n N"] show ?thesis by simp
  next
    case False
    with that N obtain obj' where "h q = Some obj'" "settles max_size N h obj'" by auto
    with settles_mono [OF this(2), of "max n N"] show ?thesis by simp
  qed
  then show ?case by blast
qed

lemma find_max_settles:
  "\<forall>p \<in> set ps. \<exists>r. f p = Some r \<and> r \<noteq> Inl Undefined
   \<Longrightarrow> \<exists>r. find_max f ps len = Some r \<and> r \<noteq> Inl Undefined"
proof (induction ps arbitrary: len)
  case Nil
  then show ?case by simp
next
  case (Cons p ps)
  then obtain x where x: "f p = Some x" "x \<noteq> Inl Undefined" by auto
  from Cons.prems have rest: "\<forall>p \<in> set ps. \<exists>r. f p = Some r \<and> r \<noteq> Inl Undefined" by simp
  show ?case
  proof (cases x)
    case (Inl e)
    with x show ?thesis by simp
  next
    case (Inr l)
    with x Cons.IH [OF rest] show ?thesis by (cases "len < l") simp_all
  qed
qed

lemma generate_all_settles:
  assumes "\<forall>p \<in> set ps. \<forall>g. \<exists>r g'. f p g = Some (r, g') \<and> (C \<longrightarrow> r \<noteq> Inl Undefined)
              \<and> (\<forall>s. r = Inr s \<longrightarrow> s \<noteq> [] \<and> length s \<le> M)"
    and "\<forall>s \<in> set acc. s \<noteq> [] \<and> length s \<le> M"
  shows "\<exists>r g'. generate_all f ps acc gen = Some (r, g') \<and> (C \<longrightarrow> r \<noteq> Inl Undefined)
     \<and> (\<forall>frags. r = Inr frags \<longrightarrow>
           length frags = length acc + length ps
           \<and> (\<forall>s \<in> set frags. s \<noteq> [] \<and> length s \<le> M))"
  using assms
proof (induction ps arbitrary: acc gen)
  case Nil
  then show ?case by simp
next
  case (Cons p ps)
  from Cons.prems(1) obtain x gen1 where x: "f p gen = Some (x, gen1)"
    "C \<longrightarrow> x \<noteq> Inl Undefined"
    "\<forall>s. x = Inr s \<longrightarrow> s \<noteq> [] \<and> length s \<le> M" by (meson list.set_intros(1))
  from Cons.prems(1) have rest: "\<forall>p \<in> set ps. \<forall>g. \<exists>r g'. f p g = Some (r, g')
      \<and> (C \<longrightarrow> r \<noteq> Inl Undefined) \<and> (\<forall>s. r = Inr s \<longrightarrow> s \<noteq> [] \<and> length s \<le> M)" by simp
  show ?case
  proof (cases x)
    case (Inl e)
    with x show ?thesis by simp
  next
    case (Inr s)
    with x Cons.prems(2) have "\<forall>t \<in> set (acc @ [s]). t \<noteq> [] \<and> length t \<le> M" by simp
    from Cons.IH [OF rest this, of gen1] x Inr show ?thesis by simp
  qed
qed

lemma drawable_small:
  assumes "s \<noteq> []" and "length s \<le> unat max_size" and "unat max_size \<le> 2 ^ 31"
  shows "0 \<le> distribution_b s"
proof -
  from assms(2,3) have "length s \<le> 2 ^ 31" by simp
  from distribution_b_small [OF assms(1) this] assms(1) show ?thesis by (cases s) simp_all
qed

lemma random_string_settles:
  assumes "chars \<noteq> []" and "length chars \<le> unat max_size"
  shows "\<exists>r gen'. random_string max_size len chars gen = (r, gen')
     \<and> (unat max_size \<le> 2 ^ 31 \<longrightarrow> r \<noteq> Inl Undefined)
     \<and> (\<forall>s. r = Inr s \<longrightarrow> s \<noteq> [] \<and> length s \<le> unat max_size)"
  using random_string_outcome [of max_size len chars gen] drawable_small [OF assms]
  by auto

lemma append_random_settles:
  "\<forall>s \<in> set strs. s \<noteq> [] \<and> length s \<le> unat max_size \<Longrightarrow>
   password \<noteq> [] \<Longrightarrow> length password \<le> unat max_size \<Longrightarrow>
   \<exists>r gen'. append_random max_size strs password gen = (r, gen')
     \<and> (unat max_size \<le> 2 ^ 31 \<longrightarrow> r \<noteq> Inl Undefined)
     \<and> (\<forall>s. r = Inr s \<longrightarrow> s \<noteq> [] \<and> length s \<le> unat max_size)"
proof (induction strs arbitrary: password gen)
  case Nil
  then show ?case by simp
next
  case (Cons str strs)
  from Cons.prems(1) have str: "str \<noteq> []" "length str \<le> unat max_size" by simp_all
  from random_string_settles [OF str, of 1 gen] obtain x gen1
    where x: "random_string max_size 1 str gen = (x, gen1)"
      "unat max_size \<le> 2 ^ 31 \<longrightarrow> x \<noteq> Inl Undefined" by blast
  show ?case
  proof (cases x)
    case (Inl e)
    with x show ?thesis by simp
  next
    case (Inr s)
    show ?thesis
    proof (cases "length password + length s \<le> unat max_size")
      case False
      with x Inr show ?thesis by (simp add: append_str_def)
    next
      case True
      then have a: "append_str max_size password s = Inr (password @ s)"
        by (simp add: append_str_def)
      from Cons.prems(1) have rest: "\<forall>s \<in> set strs. s \<noteq> [] \<and> length s \<le> unat max_size"
        by simp
      from Cons.prems(2) have ne: "password @ s \<noteq> []" by simp
      from True have "length (password @ s) \<le> unat max_size" by simp
      from Cons.IH [OF rest ne this, of gen1] x Inr a show ?thesis by simp
    qed
  qed
qed

lemma compose_settles:
  assumes ne: "\<forall>s \<in> set frags. s \<noteq> [] \<and> length s \<le> unat max_size"
    and zero: "frags = [] \<longrightarrow> pas_len = 0"
  shows "\<exists>r gen'. compose max_size pas_len frags gen = (r, gen')
     \<and> (unat max_size \<le> 2 ^ 31 \<longrightarrow> r \<noteq> Inl Undefined)
     \<and> (\<forall>s. r = Inr s \<longrightarrow> s \<noteq> [] \<and> length s \<le> unat max_size)"
proof (cases "pas_len \<le> of_nat (length frags)")
  case True
  then show ?thesis by (simp add: compose_def)
next
  case False
  with zero have some: "frags \<noteq> []" by auto
  with ne have cne: "concat frags \<noteq> []" by (cases frags) auto
  have "length ([] :: string) \<le> unat max_size" by simp
  from append_all_outcome [OF this, of frags] show ?thesis
  proof (elim disjE conjE)
    assume "append_all max_size frags [] = Inl Length_or_alloc_error"
    with False show ?thesis by (simp add: compose_def)
  next
    assume a: "append_all max_size frags [] = Inr ([] @ concat frags)"
      and "length ([] @ concat frags) \<le> unat max_size"
    then have fits: "length (concat frags) \<le> unat max_size" by simp
    from random_string_settles [OF cne fits, of "pas_len - of_nat (length frags)" gen]
    obtain x gen1 where x: "random_string max_size (pas_len - of_nat (length frags))
          (concat frags) gen = (x, gen1)"
      "unat max_size \<le> 2 ^ 31 \<longrightarrow> x \<noteq> Inl Undefined"
      "\<forall>s. x = Inr s \<longrightarrow> s \<noteq> [] \<and> length s \<le> unat max_size" by blast
    show ?thesis
    proof (cases x)
      case (Inl e)
      with False a x show ?thesis by (simp add: compose_def)
    next
      case (Inr filler)
      with x have "filler \<noteq> []" "length filler \<le> unat max_size" by simp_all
      from append_random_settles [OF ne this, of gen1] False a x Inr show ?thesis
        by (simp add: compose_def)
    qed
  qed
qed

lemma leaf_settles: "settles max_size (Suc 0) h (Basic_password_generator c len)"
proof -
  have "\<exists>r gen'. generate_f max_size (Suc 0) h (Basic_password_generator c len) gen
        = Some (r, gen')
      \<and> (unat max_size \<le> 2 ^ 31 \<longrightarrow> r \<noteq> Inl Undefined)
      \<and> (\<forall>s. r = Inr s \<longrightarrow> s \<noteq> [] \<and> length s \<le> unat max_size)" for gen
  proof (cases "c = Basic")
    case True
    then show ?thesis by simp
  next
    case False
    from policy_alphabet [OF False, of len] obtain chars
      where chars: "allowed_chars (Basic_password_generator c len) = Inr chars"
        and b: "0 \<le> distribution_b chars" by blast
    from random_string_outcome [of max_size len chars gen] b chars show ?thesis
      by (cases "length chars \<le> unat max_size") auto
  qed
  then show ?thesis by (simp add: settles_def)
qed

lemma composite_settles:
  assumes children: "\<forall>p \<in> set generators. \<exists>obj. h p = Some obj \<and> settles max_size N h obj"
  shows "settles max_size (Suc (Suc N)) h (Composite_password_generator generators)"
proof -
  let ?obj = "Composite_password_generator generators"
  have "\<forall>p \<in> set generators. \<exists>r. length_of N h p = Some r \<and> r \<noteq> Inl Undefined"
    using children by (auto simp: settles_def length_of_def)
  from find_max_settles [OF this, of 0] obtain x
    where x: "length_f (Suc N) h ?obj = Some x" and xu: "x \<noteq> Inl Undefined"
    by (auto simp only: length_f_composite)
  from x have x': "length_f (Suc (Suc N)) h ?obj = Some x" by (rule length_f_Suc)
  have gen_children: "\<forall>p \<in> set generators. \<forall>g. \<exists>r g'.
      generate_of max_size (Suc N) h p g = Some (r, g')
      \<and> (unat max_size \<le> 2 ^ 31 \<longrightarrow> r \<noteq> Inl Undefined)
      \<and> (\<forall>s. r = Inr s \<longrightarrow> s \<noteq> [] \<and> length s \<le> unat max_size)"
  proof (intro ballI allI)
    fix p g
    assume "p \<in> set generators"
    with children obtain obj where obj: "h p = Some obj" and s: "settles max_size N h obj"
      by blast
    from s obtain r g' where "generate_f max_size N h obj g = Some (r, g')"
      "unat max_size \<le> 2 ^ 31 \<longrightarrow> r \<noteq> Inl Undefined"
      "\<forall>s. r = Inr s \<longrightarrow> s \<noteq> [] \<and> length s \<le> unat max_size" unfolding settles_def by blast
    with obj generate_f_Suc [of max_size N h obj g "(r, g')"]
    show "\<exists>r g'. generate_of max_size (Suc N) h p g = Some (r, g')
      \<and> (unat max_size \<le> 2 ^ 31 \<longrightarrow> r \<noteq> Inl Undefined)
      \<and> (\<forall>s. r = Inr s \<longrightarrow> s \<noteq> [] \<and> length s \<le> unat max_size)"
      by (auto simp: generate_of_def simp del: generate_f.simps)
  qed
  have "\<exists>r gen'. generate_f max_size (Suc (Suc N)) h ?obj gen = Some (r, gen')
      \<and> (unat max_size \<le> 2 ^ 31 \<longrightarrow> r \<noteq> Inl Undefined)
      \<and> (\<forall>s. r = Inr s \<longrightarrow> s \<noteq> [] \<and> length s \<le> unat max_size)" for gen
  proof (cases x)
    case (Inl e)
    with x xu show ?thesis by (simp add: generate_f_composite del: generate_f.simps length_f.simps)
  next
    case (Inr pas_len)
    have "\<forall>s \<in> set ([] :: string list). s \<noteq> [] \<and> length s \<le> unat max_size" by simp
    from generate_all_settles [OF gen_children this, of gen] obtain y gen1
      where y: "generate_all (generate_of max_size (Suc N) h) generators [] gen
                  = Some (y, gen1)"
        and yu: "unat max_size \<le> 2 ^ 31 \<longrightarrow> y \<noteq> Inl Undefined"
        and fr: "\<forall>frags. y = Inr frags \<longrightarrow> length frags = length generators
              \<and> (\<forall>s \<in> set frags. s \<noteq> [] \<and> length s \<le> unat max_size)" by auto
    show ?thesis
    proof (cases y)
      case (Inl e)
      with x Inr y yu show ?thesis
        by (simp add: generate_f_composite del: generate_f.simps length_f.simps)
    next
      case frags: (Inr frags)
      with fr have len: "length frags = length generators"
        and ne: "\<forall>s \<in> set frags. s \<noteq> [] \<and> length s \<le> unat max_size"
        by auto
      have "frags = [] \<longrightarrow> pas_len = 0"
      proof
        assume "frags = []"
        with len have "generators = []" by simp
        with x Inr show "pas_len = 0" by simp
      qed
      from compose_settles [OF ne this, of gen1] x Inr y frags show ?thesis
        by (auto simp add: generate_f_composite simp del: generate_f.simps length_f.simps)
    qed
  qed
  with x' xu show ?thesis unfolding settles_def by blast
qed

lemma grounded_settles: "grounded h obj \<Longrightarrow> \<exists>n. settles max_size n h obj"
proof (induction rule: grounded.induct)
  case base
  have "settles max_size (Suc 0) h Password_generator" by (simp add: settles_def)
  then show ?case ..
next
  case (leaf c len)
  from leaf_settles show ?case ..
next
  case (composite generators)
  then have "\<forall>p \<in> set generators. \<exists>obj. h p = Some obj \<and> (\<exists>n. settles max_size n h obj)"
    by blast
  from settles_common [OF this] obtain N
    where "\<forall>p \<in> set generators. \<exists>obj. h p = Some obj \<and> settles max_size N h obj" ..
  from composite_settles [OF this] show ?case ..
qed

text \<open>
  C9, as the source has it. In a grounded configuration (every registered pointer leads
  to an object, and no composite is registered in itself, directly or through other
  composites) every call of \<open>generate()\<close> comes to an end: there is a nesting depth from
  which on the call yields an outcome for every random engine. The outcome is a string,
  a \<open>std::out_of_range\<close>, a \<open>std::runtime_error\<close>, the exception of a string that
  cannot grow, or the point where a character is to be drawn from a string of more than
  \<open>2 ^ 31\<close> characters; where strings cannot grow beyond \<open>2 ^ 31\<close> characters, the last
  one does not occur.
\<close>

theorem generate_ends_when_grounded:
  "grounded h obj \<longrightarrow>
     (\<exists>n. \<forall>m gen. n \<le> m \<longrightarrow>
        (\<exists>r gen'. generate_f max_size m h obj gen = Some (r, gen')
           \<and> (unat max_size \<le> 2 ^ 31 \<longrightarrow> r \<noteq> Inl Undefined)))"
proof
  assume "grounded h obj"
  from grounded_settles [OF this] obtain n where n: "settles max_size n h obj" ..
  have "\<exists>r gen'. generate_f max_size m h obj gen = Some (r, gen')
      \<and> (unat max_size \<le> 2 ^ 31 \<longrightarrow> r \<noteq> Inl Undefined)"
    if "n \<le> m" for m gen
    using settles_mono [OF n that] unfolding settles_def by blast
  then show "\<exists>n. \<forall>m gen. n \<le> m \<longrightarrow>
      (\<exists>r gen'. generate_f max_size m h obj gen = Some (r, gen')
         \<and> (unat max_size \<le> 2 ^ 31 \<longrightarrow> r \<noteq> Inl Undefined))" by blast
qed

theorem generate_ends_when_grounded_witness:
  "grounded four_of_16 (Composite_password_generator [0, 1, 2, 3])
   \<and> (\<exists>n. \<forall>m gen. n \<le> m \<longrightarrow>
         (\<exists>r gen'. generate_f 1000 m four_of_16 (Composite_password_generator [0, 1, 2, 3]) gen
                      = Some (r, gen')
            \<and> (unat (1000 :: size_t) \<le> 2 ^ 31 \<longrightarrow> r \<noteq> Inl Undefined)))"
proof -
  have "grounded four_of_16 (Composite_password_generator [0, 1, 2, 3])"
    by (rule grounded.composite)
      (simp add: four_of_16_def digit_generator_def symbol_generator_def
        upper_letter_generator_def lower_letter_generator_def grounded.leaf)
  with generate_ends_when_grounded
    [of four_of_16 "Composite_password_generator [0, 1, 2, 3]" 1000]
  show ?thesis by (simp only: simp_thms)
qed

text \<open>
  C9, as the claim has it, fails: a composite that is registered in itself is a
  configuration that \<open>add\<close> reaches, and there \<open>generate()\<close> calls \<open>length()\<close>, which
  calls itself through the registered pointer without end. No nesting depth suffices.
\<close>

lemma self_registered_by_add:
  "add (Composite_password_generator []) 0 = Inr (Composite_password_generator [0])
   \<and> self_registered 0 = Some (Composite_password_generator [0])"
  by (simp add: self_registered_def)

lemma self_registered_length:
  "length_f n self_registered (Composite_password_generator [0]) = None"
proof (induction n)
  case 0
  then show ?case by simp
next
  case (Suc n)
  then show ?case by (simp add: self_registered_def)
qed

theorem self_registered_counterexample:
  "\<not> (\<exists>max_size n r.
        generate_f max_size n self_registered (Composite_password_generator [0]) counting
          = Some r)"
proof
  assume "\<exists>max_size n r.
      generate_f max_size n self_registered (Composite_password_generator [0]) counting = Some r"
  then obtain max_size n r
    where r: "generate_f max_size n self_registered (Composite_password_generator [0]) counting
                = Some r"
    by blast
  show False
  proof (cases n)
    case 0
    with r show ?thesis by simp
  next
    case (Suc m)
    with r self_registered_length [of m] show ?thesis by simp
  qed
qed

end
